theory Spec2Isabelle
  imports Complex_Main "HOL-Library.AList"
begin

section \<open>Python values and exceptions\<close>

text \<open>
  The notebook \<^verbatim>\<open>tsp_Project.ipynb\<close> is dynamically typed: a \<^verbatim>\<open>Tour\<close> is a Python
  list whose elements are meant to be vertices (ints) but may be \<^verbatim>\<open>None\<close>, and a
  \<^verbatim>\<open>for i, j in ...\<close> loop unpacks whatever object it is handed. List elements are
  therefore modelled by a small datatype of Python objects. Floats are modelled by
  \<^typ>\<open>real\<close>; the only float operations of the code are \<^verbatim>\<open>x > 0.5\<close> and a sum.
\<close>

datatype pyval = PInt int | PNone | PTuple "pyval list"

text \<open>The exceptions the code can raise. \<^verbatim>\<open>assert\<close> raises \<open>AssertionError\<close>.\<close>

datatype error = AssertionError | IndexError | KeyError | TypeError | ValueError | RuntimeError

type_synonym Arc = "int \<times> int"

text \<open>A dict keyed by arcs, in insertion order.\<close>

type_synonym 'v arcdict = "(Arc \<times> 'v) list"

text \<open>
  \<^verbatim>\<open>d[i, j]\<close>: the key is the tuple \<^verbatim>\<open>(i, j)\<close>; it can only equal a stored arc when
  both components are ints. A missing key raises \<open>KeyError\<close>.
\<close>

fun key_of :: "pyval \<Rightarrow> pyval \<Rightarrow> Arc option" where
  "key_of (PInt a) (PInt b) = Some (a, b)"
| "key_of _ _ = None"

definition dict_get :: "'v arcdict \<Rightarrow> pyval \<Rightarrow> pyval \<Rightarrow> error + 'v" where
  "dict_get d i j =
     (case key_of i j of
        None \<Rightarrow> Inl KeyError
      | Some k \<Rightarrow> (case map_of d k of None \<Rightarrow> Inl KeyError | Some v \<Rightarrow> Inr v))"

section \<open>TSPIntance\<close>

record TSPIntance =
  tsp_n :: nat
  tsp_x :: "real list"
  tsp_y :: "real list"
  tsp_cost :: "real arcdict"

text \<open>\<^verbatim>\<open>vertices()\<close> is \<^verbatim>\<open>range(self.n)\<close>.\<close>

definition vertices :: "nat \<Rightarrow> int list" where
  "vertices n = map int [0..<n]"

text \<open>
  The inner loop of the constructor, \<^verbatim>\<open>for j in self.vertices()\<close>, on the state
  \<open>(self.cost, cost_index)\<close>. \<^verbatim>\<open>costs[cost_index]\<close> raises \<open>IndexError\<close> past the end
  of the list (the index is never negative).
\<close>

fun fill_row :: "real list \<Rightarrow> int \<Rightarrow> int list \<Rightarrow> real arcdict \<times> nat \<Rightarrow> error + real arcdict \<times> nat" where
  "fill_row costs i [] st = Inr st"
| "fill_row costs i (j # js) (d, k) =
     (if i \<noteq> j then
        (if k < length costs
         then fill_row costs i js (AList.update (i, j) (costs ! k) d, k + 1)
         else Inl IndexError)
      else fill_row costs i js (d, k))"

text \<open>The outer loop, \<^verbatim>\<open>for i in self.vertices()\<close>.\<close>

fun fill_cost :: "real list \<Rightarrow> int list \<Rightarrow> int list \<Rightarrow> real arcdict \<times> nat \<Rightarrow> error + real arcdict \<times> nat" where
  "fill_cost costs [] vs st = Inr st"
| "fill_cost costs (i # is) vs st =
     (case fill_row costs i vs st of
        Inl e \<Rightarrow> Inl e
      | Inr st' \<Rightarrow> fill_cost costs is vs st')"

definition TSPIntance_init :: "real list \<Rightarrow> real list \<Rightarrow> real list \<Rightarrow> error + TSPIntance" where
  "TSPIntance_init xs ys costs =
     (if length xs \<noteq> length ys then Inl AssertionError
      else
        (case fill_cost costs (vertices (length xs)) (vertices (length xs)) ([], 0) of
           Inl e \<Rightarrow> Inl e
         | Inr (d, k) \<Rightarrow> Inr \<lparr>tsp_n = length xs, tsp_x = xs, tsp_y = ys, tsp_cost = d\<rparr>))"

text \<open>
  The arcs in the order in which the two loops of the constructor meet them: for each \<open>i\<close>
  of \<open>is\<close> in turn, the pairs \<open>(i, j)\<close> with \<open>j\<close> running through \<open>vs\<close>, \<open>j \<noteq> i\<close>.
\<close>

definition row_arcs :: "int list \<Rightarrow> int list \<Rightarrow> Arc list" where
  "row_arcs is vs = concat (map (\<lambda>i. map (Pair i) (filter (\<lambda>j. i \<noteq> j) vs)) is)"

definition all_arcs :: "nat \<Rightarrow> Arc list" where
  "all_arcs n = row_arcs (vertices n) (vertices n)"

text \<open>\<^verbatim>\<open>arcs()\<close> is \<^verbatim>\<open>self.cost.keys()\<close>.\<close>

definition arcs :: "TSPIntance \<Rightarrow> Arc list" where
  "arcs tsp = map fst (tsp_cost tsp)"

section \<open>TSPSolution\<close>

record TSPSolution =
  sol_tour :: "pyval list"
  sol_cost :: real

text \<open>
  \<^verbatim>\<open>sum(tsp.cost[i, j] for i in tour[:-1] for j in tour[1:])\<close>: the generator has two
  nested \<^verbatim>\<open>for\<close> clauses, so it runs over every pair of an element of \<^verbatim>\<open>tour[:-1]\<close>
  with an element of \<^verbatim>\<open>tour[1:]\<close>, the first clause outermost. The sum starts at 0 and
  stops at the first lookup that raises.
\<close>

fun cost_sum :: "real arcdict \<Rightarrow> (pyval \<times> pyval) list \<Rightarrow> real \<Rightarrow> error + real" where
  "cost_sum d [] acc = Inr acc"
| "cost_sum d ((i, j) # ps) acc =
     (case dict_get d i j of
        Inl e \<Rightarrow> Inl e
      | Inr c \<Rightarrow> cost_sum d ps (acc + c))"

text \<open>
  The keyword arguments \<^verbatim>\<open>cost\<close> and \<^verbatim>\<open>instance\<close> are each present (\<open>Some\<close>) or absent
  (\<open>None\<close>).
\<close>

definition TSPSolution_init :: "pyval list \<Rightarrow> real option \<Rightarrow> TSPIntance option \<Rightarrow> error + TSPSolution" where
  "TSPSolution_init tour kw_cost kw_instance =
     (if kw_cost = None \<and> kw_instance = None then Inl AssertionError
      else
        (case kw_cost of
           Some c \<Rightarrow> Inr \<lparr>sol_tour = tour, sol_cost = c\<rparr>
         | None \<Rightarrow>
             (case kw_instance of
                Some tsp \<Rightarrow>
                  (case cost_sum (tsp_cost tsp) (List.product (butlast tour) (tl tour)) 0 of
                     Inl e \<Rightarrow> Inl e
                   | Inr c \<Rightarrow> Inr \<lparr>sol_tour = tour, sol_cost = c\<rparr>)
              | None \<Rightarrow> Inl AssertionError)))"

section \<open>BranchAndCutIntegerSolver\<close>

subsection \<open>The model handed to the engine\<close>

text \<open>
  A linear expression built by the code is a sum of variables, each with coefficient 1:
  the list of their keys. The constraints the code registers have one of three shapes.
\<close>

type_synonym linexpr = "Arc list"

datatype constr = EqConst linexpr int | EqExpr linexpr linexpr | LeConst linexpr int

text \<open>
  \<open>m_vars\<close> holds one variable per key with its objective coefficient (the engine
  minimises by default), \<open>m_vtype\<close> the type given to all of them, and \<open>m_constrs\<close> the
  registered constraints in order.
\<close>

datatype vtype = BINARY | INTEGER | CONTINUOUS

record Model =
  m_vars :: "real arcdict"
  m_vtype :: vtype
  m_constrs :: "constr list"

text \<open>
  \<^verbatim>\<open>tupledict.sum(p, q)\<close> adds up the variables whose key matches the pattern, where
  \<^verbatim>\<open>'*'\<close> matches anything.
\<close>

datatype pat = Wild | Lit int

fun matches :: "pat \<Rightarrow> int \<Rightarrow> bool" where
  "matches Wild a = True"
| "matches (Lit b) a = (a = b)"

definition x_sum :: "Arc list \<Rightarrow> pat \<Rightarrow> pat \<Rightarrow> linexpr" where
  "x_sum ks p q = filter (\<lambda>(a, b). matches p a \<and> matches q b) ks"

record BranchAndCutIntegerSolver =
  s_tsp :: TSPIntance
  s_m :: Model
  s_x :: "Arc list"

text \<open>\<^verbatim>\<open>self.tsp.n - 1\<close>, the sink; it is \<open>-1\<close> for an instance without vertices.\<close>

definition sink :: "BranchAndCutIntegerSolver \<Rightarrow> int" where
  "sink self = int (tsp_n (s_tsp self)) - 1"

definition build_model :: "BranchAndCutIntegerSolver \<Rightarrow> BranchAndCutIntegerSolver" where
  "build_model self =
     (let ks = s_x self; n = tsp_n (s_tsp self);
          cs = [EqConst (x_sum ks (Lit 0) Wild) 1,
                EqConst (x_sum ks Wild (Lit (sink self))) 1]
             @ map (\<lambda>i. EqExpr (x_sum ks (Lit i) Wild) (x_sum ks Wild (Lit i)))
                   (map int [1..<n - 1])
             @ [EqConst (x_sum ks (Lit (sink self)) Wild) 0,
                EqConst (x_sum ks Wild (Lit 0)) 0]
             @ map (\<lambda>i. LeConst (x_sum ks (Lit i) Wild) 1) (vertices n)
      in self\<lparr>s_m := (s_m self)\<lparr>m_constrs := m_constrs (s_m self) @ cs\<rparr>\<rparr>)"

text \<open>
  \<^verbatim>\<open>__init__\<close>: \<^verbatim>\<open>addVars(self.tsp.arcs(), obj=self.tsp.cost, vtype=GRB.BINARY)\<close> creates
  one variable per key of the cost dict, with the dict's value as objective coefficient.
\<close>

definition BranchAndCutIntegerSolver_init :: "TSPIntance \<Rightarrow> BranchAndCutIntegerSolver" where
  "BranchAndCutIntegerSolver_init tsp =
     build_model \<lparr>s_tsp = tsp, s_m = \<lparr>m_vars = tsp_cost tsp, m_vtype = BINARY, m_constrs = []\<rparr>, s_x = arcs tsp\<rparr>"

subsection \<open>Reading a snapshot\<close>

text \<open>
  A snapshot gives the engine's current value of every variable. The code reads it with
  \<^verbatim>\<open>cbGetSolution\<close> inside a callback and with \<^verbatim>\<open>.X\<close> after the optimisation; both are
  the function \<open>snap\<close> here. \<^verbatim>\<open>self.x[i, j]\<close> raises \<open>KeyError\<close> for a key that is not a
  variable; that is not a \<^verbatim>\<open>GurobiError\<close>, so the \<^verbatim>\<open>except\<close> clause lets it through.
\<close>

type_synonym snapshot = "Arc \<Rightarrow> real"

definition var_value :: "BranchAndCutIntegerSolver \<Rightarrow> snapshot \<Rightarrow> pyval \<Rightarrow> pyval \<Rightarrow> error + real" where
  "var_value self snap i j =
     (case key_of i j of
        None \<Rightarrow> Inl KeyError
      | Some k \<Rightarrow> if k \<in> set (s_x self) then Inr (snap k) else Inl KeyError)"

text \<open>The loop of \<^verbatim>\<open>__next_vertex\<close> over the vertices still to scan.\<close>

fun next_vertex_scan :: "BranchAndCutIntegerSolver \<Rightarrow> snapshot \<Rightarrow> pyval \<Rightarrow> int list \<Rightarrow> error + pyval" where
  "next_vertex_scan self snap i [] = Inr PNone"
| "next_vertex_scan self snap i (j # js) =
     (if PInt j = i then next_vertex_scan self snap i js
      else
        (case var_value self snap i (PInt j) of
           Inl e \<Rightarrow> Inl e
         | Inr x \<Rightarrow> if x > 1 / 2 then Inr (PInt j) else next_vertex_scan self snap i js))"

definition next_vertex :: "BranchAndCutIntegerSolver \<Rightarrow> snapshot \<Rightarrow> pyval \<Rightarrow> error + pyval" where
  "next_vertex self snap i = next_vertex_scan self snap i (vertices (tsp_n (s_tsp self)))"

text \<open>
  The \<^verbatim>\<open>while current != i\<close> loop of \<^verbatim>\<open>__tour_starting_at\<close>. The loop has no bound of
  its own, so the model is a partial function: \<open>None\<close> means that the loop runs forever.
\<close>

partial_function (option) tour_loop ::
  "BranchAndCutIntegerSolver \<Rightarrow> snapshot \<Rightarrow> pyval \<Rightarrow> pyval \<Rightarrow> pyval list \<Rightarrow> (error + pyval list) option" where
  "tour_loop self snap i current tour =
     (if current = i then Some (Inr tour)
      else
        (let tour' = tour @ [current] in
         if current = PInt (sink self) then Some (Inr tour')
         else
           (case next_vertex self snap current of
              Inl e \<Rightarrow> Some (Inl e)
            | Inr c \<Rightarrow> tour_loop self snap i c tour')))"

definition tour_starting_at :: "BranchAndCutIntegerSolver \<Rightarrow> snapshot \<Rightarrow> pyval \<Rightarrow> (error + pyval list) option" where
  "tour_starting_at self snap i =
     (case next_vertex self snap i of
        Inl e \<Rightarrow> Some (Inl e)
      | Inr current \<Rightarrow>
          if current = PNone then Some (Inr [i])
          else tour_loop self snap i current [i])"

subsection \<open>Subtour elimination\<close>

text \<open>
  \<^verbatim>\<open>for i, j in subtour\<close> unpacks each element of the list into two names. Only a
  sequence of exactly two items unpacks; an int or \<^verbatim>\<open>None\<close> is not iterable and raises
  \<open>TypeError\<close>, a tuple of another length raises \<open>ValueError\<close>.
\<close>

fun unpack2 :: "pyval \<Rightarrow> error + pyval \<times> pyval" where
  "unpack2 (PTuple [a, b]) = Inr (a, b)"
| "unpack2 (PTuple _) = Inl ValueError"
| "unpack2 _ = Inl TypeError"

definition x_key :: "BranchAndCutIntegerSolver \<Rightarrow> pyval \<Rightarrow> pyval \<Rightarrow> error + Arc" where
  "x_key self i j =
     (case key_of i j of
        None \<Rightarrow> Inl KeyError
      | Some k \<Rightarrow> if k \<in> set (s_x self) then Inr k else Inl KeyError)"

text \<open>The generator \<^verbatim>\<open>self.x[i, j] for i, j in subtour\<close>, consumed by \<^verbatim>\<open>sum\<close>.\<close>

fun sec_terms :: "BranchAndCutIntegerSolver \<Rightarrow> pyval list \<Rightarrow> error + linexpr" where
  "sec_terms self [] = Inr []"
| "sec_terms self (e # es) =
     (case unpack2 e of
        Inl err \<Rightarrow> Inl err
      | Inr (i, j) \<Rightarrow>
          (case x_key self i j of
             Inl err \<Rightarrow> Inl err
           | Inr k \<Rightarrow>
               (case sec_terms self es of
                  Inl err \<Rightarrow> Inl err
                | Inr ks \<Rightarrow> Inr (k # ks))))"

text \<open>
  What \<^verbatim>\<open>__add_sec_for\<close> hands to \<^verbatim>\<open>cbLazy\<close>: the inequality \<open>sum \<le> len(subtour) - 1\<close>, or,
  for an empty list, the Python bool \<^verbatim>\<open>0 <= -1\<close>, since \<^verbatim>\<open>sum\<close> of nothing is the int 0.
\<close>

datatype lazy_arg = TempConstr linexpr int | PyBool bool

definition add_sec_for :: "BranchAndCutIntegerSolver \<Rightarrow> pyval list \<Rightarrow> error + lazy_arg" where
  "add_sec_for self subtour =
     (case sec_terms self subtour of
        Inl e \<Rightarrow> Inl e
      | Inr ks \<Rightarrow>
          Inr (if subtour = [] then PyBool ((0::int) \<le> int (length subtour) - 1)
               else TempConstr ks (int (length subtour) - 1)))"

text \<open>The ints of a list: what \<^verbatim>\<open>remaining -= set(subtour)\<close> can remove from a set of ints.\<close>

fun ints_of :: "pyval list \<Rightarrow> int list" where
  "ints_of [] = []"
| "ints_of (PInt a # vs) = a # ints_of vs"
| "ints_of (_ # vs) = ints_of vs"

text \<open>
  The \<^verbatim>\<open>while len(remaining) > 0\<close> loop of \<^verbatim>\<open>__find_subtours\<close>. \<^verbatim>\<open>next(iter(remaining))\<close>
  is some element of the set; which one is the parameter \<open>pick\<close>. The state carried along
  is the list of arguments handed to \<^verbatim>\<open>cbLazy\<close> so far; it is returned with the outcome.
  \<^verbatim>\<open>subtour[-1]\<close> raises \<open>IndexError\<close> on an empty list.
\<close>

partial_function (option) scan_loop ::
  "BranchAndCutIntegerSolver \<Rightarrow> snapshot \<Rightarrow> (int set \<Rightarrow> int) \<Rightarrow> int set \<Rightarrow> lazy_arg list
     \<Rightarrow> (lazy_arg list \<times> (error + unit)) option" where
  "scan_loop self snap pick remaining sent =
     (if remaining = {} then Some (sent, Inr ())
      else
        (let start = PInt (pick remaining) in
         case tour_starting_at self snap start of
           None \<Rightarrow> None
         | Some (Inl e) \<Rightarrow> Some (sent, Inl e)
         | Some (Inr subtour) \<Rightarrow>
             if subtour = [start] then Some (sent, Inr ())
             else if subtour = [] then Some (sent, Inl IndexError)
             else if last subtour = PInt (sink self) \<or> length subtour < 2
               then Some (sent, Inr ())
             else
               (case add_sec_for self subtour of
                  Inl e \<Rightarrow> Some (sent, Inl e)
                | Inr c \<Rightarrow>
                    scan_loop self snap pick (remaining - set (ints_of subtour)) (sent @ [c]))))"

text \<open>\<^verbatim>\<open>GRB.Callback.MIPSOL\<close> and \<^verbatim>\<open>GRB.OPTIMAL\<close>, as gurobipy defines them.\<close>

definition MIPSOL :: int where
  "MIPSOL = 4"

definition OPTIMAL :: int where
  "OPTIMAL = 2"

definition find_subtours ::
  "BranchAndCutIntegerSolver \<Rightarrow> snapshot \<Rightarrow> (int set \<Rightarrow> int) \<Rightarrow> int \<Rightarrow> (lazy_arg list \<times> (error + unit)) option" where
  "find_subtours self snap pick where' =
     (if where' \<noteq> MIPSOL then Some ([], Inr ())
      else scan_loop self snap pick (set (vertices (tsp_n (s_tsp self)))) [])"

subsection \<open>solve\<close>

text \<open>
  What the engine holds when \<^verbatim>\<open>optimize\<close> has returned: its status, its objective value
  and the final value of every variable.
\<close>

record Engine =
  e_Status :: int
  e_ObjVal :: real
  e_X :: snapshot

definition solve :: "BranchAndCutIntegerSolver \<Rightarrow> Engine \<Rightarrow> (error + TSPSolution) option" where
  "solve self eng =
     (if e_Status eng \<noteq> OPTIMAL then Some (Inl RuntimeError)
      else
        (case tour_starting_at self (e_X eng) (PInt 0) of
           None \<Rightarrow> None
         | Some (Inl e) \<Rightarrow> Some (Inl e)
         | Some (Inr tour) \<Rightarrow> Some (TSPSolution_init tour (Some (e_ObjVal eng)) None)))"

section \<open>Valid instances and test data\<close>

text \<open>
  The invariant of an Instance: its cost dict has exactly the keys \<open>(i, j)\<close>, \<open>i \<noteq> j\<close>, over
  its \<open>n\<close> vertices, in lexicographic order. The constructor establishes it
  (\<open>init_valid\<close> below).
\<close>

definition valid_instance :: "TSPIntance \<Rightarrow> bool" where
  "valid_instance tsp \<longleftrightarrow> arcs tsp = all_arcs (tsp_n tsp)"

text \<open>Instances with three and four vertices, and the snapshot that selects the listed arcs.\<close>

definition tsp3 :: TSPIntance where
  "tsp3 = \<lparr>tsp_n = 3, tsp_x = [0, 0, 0], tsp_y = [0, 0, 0],
           tsp_cost = [((0, 1), 1), ((0, 2), 2), ((1, 0), 3), ((1, 2), 4), ((2, 0), 5), ((2, 1), 6)]\<rparr>"

definition tsp4 :: TSPIntance where
  "tsp4 = \<lparr>tsp_n = 4, tsp_x = [0, 0, 0, 0], tsp_y = [0, 0, 0, 0],
           tsp_cost = [((0, 1), 1), ((0, 2), 2), ((0, 3), 3), ((1, 0), 4), ((1, 2), 5), ((1, 3), 6),
                       ((2, 0), 7), ((2, 1), 8), ((2, 3), 9), ((3, 0), 10), ((3, 1), 11), ((3, 2), 12)]\<rparr>"

definition selecting :: "Arc list \<Rightarrow> snapshot" where
  "selecting sel = (\<lambda>a. if a \<in> set sel then 1 else 0)"

section \<open>Notions of the specification\<close>

text \<open>The vertex with index \<open>v\<close>, as a Python object.\<close>

abbreviation vtx :: "nat \<Rightarrow> pyval" where
  "vtx v \<equiv> PInt (int v)"

text \<open>An arc is selected in a snapshot when its value is above the threshold 0.5.\<close>

definition selected :: "snapshot \<Rightarrow> int \<Rightarrow> int \<Rightarrow> bool" where
  "selected snap i j \<longleftrightarrow> i \<noteq> j \<and> snap (i, j) > 1 / 2"

text \<open>No vertex has more than one selected incoming arc.\<close>

definition single_entry :: "nat \<Rightarrow> snapshot \<Rightarrow> bool" where
  "single_entry n snap \<longleftrightarrow>
     (\<forall>j\<in>set (vertices n). length (filter (\<lambda>i. selected snap i j) (vertices n)) \<le> 1)"

text \<open>
  The value of a linear expression and the truth of a constraint under an assignment of
  values to the variables.
\<close>

definition lin_value :: "snapshot \<Rightarrow> linexpr \<Rightarrow> real" where
  "lin_value a e = sum_list (map a e)"

fun holds :: "snapshot \<Rightarrow> constr \<Rightarrow> bool" where
  "holds a (EqConst e k) = (lin_value a e = of_int k)"
| "holds a (EqExpr e1 e2) = (lin_value a e1 = lin_value a e2)"
| "holds a (LeConst e k) = (lin_value a e \<le> of_int k)"

text \<open>An assignment satisfies a list of constraints when each of them holds.\<close>

definition satisfies :: "snapshot \<Rightarrow> constr list \<Rightarrow> bool" where
  "satisfies a cs \<longleftrightarrow> list_all (holds a) cs"

text \<open>
  The degrees of the specification: the out-degree of \<open>v\<close> adds up the values of the arcs
  \<open>(v, j)\<close>, the in-degree those of the arcs \<open>(i, v)\<close>, over the other vertices.
\<close>

definition out_degree :: "nat \<Rightarrow> snapshot \<Rightarrow> int \<Rightarrow> real" where
  "out_degree n a v = sum_list (map (\<lambda>j. a (v, j)) (filter (\<lambda>j. j \<noteq> v) (vertices n)))"

definition in_degree :: "nat \<Rightarrow> snapshot \<Rightarrow> int \<Rightarrow> real" where
  "in_degree n a v = sum_list (map (\<lambda>i. a (i, v)) (filter (\<lambda>i. i \<noteq> v) (vertices n)))"

text \<open>Every variable has the value 0 or 1.\<close>

definition binary :: "Arc list \<Rightarrow> snapshot \<Rightarrow> bool" where
  "binary ks a \<longleftrightarrow> (\<forall>k\<in>set ks. a k = 0 \<or> a k = 1)"

text \<open>
  What the base model leaves of a snapshot once the values are compared with 0.5: no
  vertex is entered twice, the source is left and never entered, and an interior vertex
  that is entered is left.
\<close>

definition path_feasible :: "nat \<Rightarrow> snapshot \<Rightarrow> bool" where
  "path_feasible n snap \<longleftrightarrow>
     single_entry n snap
     \<and> (\<exists>j\<in>set (vertices n). selected snap 0 j)
     \<and> (\<forall>u\<in>set (vertices n). \<not> selected snap u 0)
     \<and> (\<forall>v\<in>set (vertices n). v \<noteq> 0 \<and> v \<noteq> int n - 1 \<and> (\<exists>u\<in>set (vertices n). selected snap u v)
            \<longrightarrow> (\<exists>w\<in>set (vertices n). selected snap v w))"

text \<open>
  Every vertex other than \<open>i\<close> and the sink that has a selected incoming arc has a selected
  outgoing arc: a walk from \<open>i\<close> that enters such a vertex can leave it.
\<close>

definition entered_is_left :: "nat \<Rightarrow> snapshot \<Rightarrow> int \<Rightarrow> bool" where
  "entered_is_left n snap i \<longleftrightarrow>
     (\<forall>v\<in>set (vertices n). v \<noteq> i \<and> v \<noteq> int n - 1 \<and> (\<exists>u\<in>set (vertices n). selected snap u v)
         \<longrightarrow> (\<exists>w\<in>set (vertices n). selected snap v w))"

section \<open>Solution construction\<close>

text \<open>
  Claim C10. When a Solution is constructed with both an explicit cost and an Instance,
  the explicit cost is stored and the Instance plays no part: the result is the same
  for every Instance, whatever its cost mapping holds.
\<close>

theorem explicit_cost_wins:
  "TSPSolution_init tour (Some c) (Some tsp) = Inr \<lparr>sol_tour = tour, sol_cost = c\<rparr>"
  by (simp add: TSPSolution_init_def)

section \<open>Instance construction\<close>

lemma update_fresh: "k \<notin> fst ` set al \<Longrightarrow> AList.update k v al = al @ [(k, v)]"
  by (induction al) auto

lemma fill_row_eq:
  "distinct js \<Longrightarrow> \<forall>j\<in>set js. (i, j) \<notin> fst ` set d \<Longrightarrow> k \<le> length costs \<Longrightarrow>
   fill_row costs i js (d, k) =
     (let ts = filter (\<lambda>j. i \<noteq> j) js in
      if k + length ts \<le> length costs
      then Inr (d @ zip (map (Pair i) ts) (take (length ts) (drop k costs)), k + length ts)
      else Inl IndexError)"
proof (induction js arbitrary: d k)
  case Nil
  then show ?case by simp
next
  case (Cons j js)
  show ?case
  proof (cases "i = j")
    case True
    with Cons show ?thesis by simp
  next
    case False
    show ?thesis
    proof (cases "k < length costs")
      case False
      with \<open>i \<noteq> j\<close> show ?thesis by simp
    next
      case True
      have fresh: "(i, j) \<notin> fst ` set d" using Cons.prems by simp
      have upd: "AList.update (i, j) (costs ! k) d = d @ [((i, j), costs ! k)]"
        by (rule update_fresh [OF fresh])
      have pre: "\<forall>j'\<in>set js. (i, j') \<notin> fst ` set (d @ [((i, j), costs ! k)])"
        using Cons.prems by auto
      have dj: "distinct js" using Cons.prems by simp
      have dr: "drop k costs = costs ! k # drop (Suc k) costs"
        using True by (simp add: Cons_nth_drop_Suc)
      show ?thesis
        using Cons.IH [OF dj pre, of "Suc k"] True \<open>i \<noteq> j\<close>
        by (simp add: upd dr Let_def)
    qed
  qed
qed


lemma length_row_arcs_Cons:
  "length (row_arcs (i # is) vs) = length (filter (\<lambda>j. i \<noteq> j) vs) + length (row_arcs is vs)"
  by (simp add: row_arcs_def)

lemma fst_row_arcs: "(a, b) \<in> set (row_arcs is vs) \<Longrightarrow> a \<in> set is"
  by (auto simp: row_arcs_def)

lemma fill_cost_eq:
  "distinct is \<Longrightarrow> distinct vs \<Longrightarrow> \<forall>i\<in>set is. \<forall>j. (i, j) \<notin> fst ` set d \<Longrightarrow> k \<le> length costs \<Longrightarrow>
   fill_cost costs is vs (d, k) =
     (let as = row_arcs is vs in
      if k + length as \<le> length costs
      then Inr (d @ zip as (take (length as) (drop k costs)), k + length as)
      else Inl IndexError)"
proof (induction "is" arbitrary: d k)
  case Nil
  then show ?case by (simp add: row_arcs_def)
next
  case (Cons i "is")
  let ?ts = "filter (\<lambda>j. i \<noteq> j) vs"
  have row: "fill_row costs i vs (d, k) =
     (if k + length ?ts \<le> length costs
      then Inr (d @ zip (map (Pair i) ?ts) (take (length ?ts) (drop k costs)), k + length ?ts)
      else Inl IndexError)"
    using fill_row_eq [of vs i d k costs] Cons.prems by (simp add: Let_def)
  show ?case
  proof (cases "k + length ?ts \<le> length costs")
    case False
    then show ?thesis using row by (simp add: Let_def length_row_arcs_Cons)
  next
    case True
    let ?d' = "d @ zip (map (Pair i) ?ts) (take (length ?ts) (drop k costs))"
    have fresh: "\<forall>i'\<in>set is. \<forall>j. (i', j) \<notin> fst ` set ?d'"
    proof (intro ballI allI notI)
      fix i' j assume i': "i' \<in> set is" and "(i', j) \<in> fst ` set ?d'"
      then obtain c where "((i', j), c) \<in> set d \<or> ((i', j), c) \<in> set (zip (map (Pair i) ?ts) (take (length ?ts) (drop k costs)))"
        by fastforce
      then show False
      proof
        assume "((i', j), c) \<in> set d"
        then have "(i', j) \<in> fst ` set d" by force
        with Cons.prems i' show False by simp
      next
        assume "((i', j), c) \<in> set (zip (map (Pair i) ?ts) (take (length ?ts) (drop k costs)))"
        then have "(i', j) \<in> set (map (Pair i) ?ts)" by (rule set_zip_leftD)
        then have "i' = i" by auto
        with Cons.prems i' show False by simp
      qed
    qed
    have dis: "distinct is" using Cons.prems by simp
    have IH: "fill_cost costs is vs (?d', k + length ?ts) =
      (let as = row_arcs is vs in
       if k + length ?ts + length as \<le> length costs
       then Inr (?d' @ zip as (take (length as) (drop (k + length ?ts) costs)), k + length ?ts + length as)
       else Inl IndexError)"
      using Cons.IH [OF dis \<open>distinct vs\<close> fresh True] .
    have split: "zip (row_arcs (i # is) vs) (take (length (row_arcs (i # is) vs)) (drop k costs))
       = zip (map (Pair i) ?ts) (take (length ?ts) (drop k costs))
         @ zip (row_arcs is vs) (take (length (row_arcs is vs)) (drop (k + length ?ts) costs))"
      if "k + length ?ts + length (row_arcs is vs) \<le> length costs"
    proof -
      have "row_arcs (i # is) vs = map (Pair i) ?ts @ row_arcs is vs"
        by (simp add: row_arcs_def)
      moreover have "take (length ?ts + length (row_arcs is vs)) (drop k costs)
         = take (length ?ts) (drop k costs) @ take (length (row_arcs is vs)) (drop (k + length ?ts) costs)"
        unfolding take_add drop_drop by (simp add: add.commute)
      ultimately show ?thesis using that True by simp
    qed
    show ?thesis
      using row True IH split by (simp add: Let_def length_row_arcs_Cons add.assoc)
  qed
qed


lemma length_filter_neq:
  "distinct vs \<Longrightarrow> i \<in> set vs \<Longrightarrow> length (filter (\<lambda>j. i \<noteq> j) vs) = length vs - 1"
proof -
  assume d: "distinct vs" and i: "i \<in> set vs"
  have "filter (\<lambda>j. i \<noteq> j) vs = removeAll i vs"
    by (induction vs) auto
  also have "\<dots> = remove1 i vs" using d by (simp add: distinct_remove1_removeAll)
  finally show ?thesis using i by (simp add: length_remove1)
qed

lemma length_row_arcs:
  "distinct vs \<Longrightarrow> set is \<subseteq> set vs \<Longrightarrow> length (row_arcs is vs) = length is * (length vs - 1)"
  by (induction "is") (simp_all add: row_arcs_def length_filter_neq)

lemma distinct_vertices: "distinct (vertices n)"
  by (simp add: vertices_def distinct_map)

lemma length_all_arcs: "length (all_arcs n) = n * (n - 1)"
  by (simp add: all_arcs_def length_row_arcs distinct_vertices) (simp add: vertices_def)

lemma zip_take_right: "zip xs (take (length xs) ys) = zip xs ys"
proof (induction xs arbitrary: ys)
  case Nil
  show ?case by simp
next
  case (Cons x xs)
  show ?case by (cases ys) (simp_all add: Cons.IH)
qed

lemma fill_cost_all:
  "fill_cost costs (vertices n) (vertices n) ([], 0) =
     (if n * (n - 1) \<le> length costs
      then Inr (zip (all_arcs n) costs, n * (n - 1))
      else Inl IndexError)"
  using fill_cost_eq [of "vertices n" "vertices n" "[]" 0 costs]
        length_all_arcs [of n] zip_take_right [of "all_arcs n" costs]
  by (simp add: distinct_vertices all_arcs_def [symmetric] Let_def)

lemma TSPIntance_init_eq:
  "TSPIntance_init xs ys costs =
     (if length xs \<noteq> length ys then Inl AssertionError
      else if length costs < length xs * (length xs - 1) then Inl IndexError
      else Inr \<lparr>tsp_n = length xs, tsp_x = xs, tsp_y = ys,
                tsp_cost = zip (all_arcs (length xs)) costs\<rparr>)"
  by (simp add: TSPIntance_init_def fill_cost_all)

lemma set_all_arcs:
  "(a, b) \<in> set (all_arcs n) \<longleftrightarrow> 0 \<le> a \<and> a < int n \<and> 0 \<le> b \<and> b < int n \<and> a \<noteq> b"
proof -
  have v: "\<And>c. c \<in> set (vertices n) \<longleftrightarrow> 0 \<le> c \<and> c < int n"
  proof -
    fix c show "c \<in> set (vertices n) \<longleftrightarrow> 0 \<le> c \<and> c < int n"
    proof
      assume "c \<in> set (vertices n)" then show "0 \<le> c \<and> c < int n" by (auto simp: vertices_def)
    next
      assume "0 \<le> c \<and> c < int n"
      then have "nat c < n" "int (nat c) = c" by auto
      then show "c \<in> set (vertices n)" unfolding vertices_def by (metis atLeast0LessThan image_eqI lessThan_iff set_map set_upt)
    qed
  qed
  show ?thesis by (auto simp: all_arcs_def row_arcs_def v)
qed

lemma init_valid: "TSPIntance_init xs ys costs = Inr tsp \<Longrightarrow> valid_instance tsp"
  by (auto simp: TSPIntance_init_eq valid_instance_def arcs_def length_all_arcs map_fst_zip_take
      split: if_splits)

lemma tsp3_init: "TSPIntance_init [0, 0, 0] [0, 0, 0] [1, 2, 3, 4, 5, 6] = Inr tsp3"
  by (simp add: TSPIntance_init_def vertices_def upt_rec tsp3_def)

lemma tsp4_init:
  "TSPIntance_init [0, 0, 0, 0] [0, 0, 0, 0] [1, 2, 3, 4, 5, 6, 7, 8, 9, 10, 11, 12] = Inr tsp4"
  by (simp add: TSPIntance_init_def vertices_def upt_rec tsp4_def)

text \<open>
  Claim C8, as the code has it. Instance construction raises \<open>AssertionError\<close> when the
  two coordinate lists differ in length and \<open>IndexError\<close> when the cost list is shorter
  than \<open>n * (n - 1)\<close>; a cost list of that length or longer is accepted, and its first
  \<open>n * (n - 1)\<close> entries are assigned to the arcs in lexicographic order. Solution
  construction raises \<open>AssertionError\<close> when neither a cost nor an instance is supplied.
\<close>

theorem construction_outcomes:
  "TSPIntance_init xs ys costs =
     (if length xs \<noteq> length ys then Inl AssertionError
      else if length costs < length xs * (length xs - 1) then Inl IndexError
      else Inr \<lparr>tsp_n = length xs, tsp_x = xs, tsp_y = ys,
                tsp_cost = zip (all_arcs (length xs)) costs\<rparr>)
   \<and> TSPSolution_init tour None None = Inl AssertionError"
  by (simp add: TSPIntance_init_eq TSPSolution_init_def)

text \<open>
  The claim as the specification words it fails for a cost list that is too long: two
  vertices need two costs, three are given, and the constructor returns an instance that
  holds the first two.
\<close>

theorem long_cost_list_accepted:
  "length [1, 2, 3 :: real] \<noteq> 2 * (2 - 1)
   \<and> TSPIntance_init [0, 0] [0, 0] [1, 2, 3] =
       Inr \<lparr>tsp_n = 2, tsp_x = [0, 0], tsp_y = [0, 0],
            tsp_cost = [((0, 1), 1), ((1, 0), 2)]\<rparr>"
  by (simp add: TSPIntance_init_def vertices_def upt_rec)

section \<open>Deriving the cost of a tour\<close>

lemma cost_sum_error: "cost_sum d ps acc = Inl e \<Longrightarrow> e = KeyError"
  by (induction d ps acc rule: cost_sum.induct)
     (auto simp: dict_get_def split: sum.splits option.splits)

lemma cost_sum_fails:
  "(i, j) \<in> set ps \<Longrightarrow> dict_get d i j = Inl KeyError \<Longrightarrow> cost_sum d ps acc = Inl KeyError"
proof (induction d ps acc rule: cost_sum.induct)
  case (1 d acc)
  then show ?case by simp
next
  case (2 d i' j' ps acc)
  show ?case
  proof (cases "dict_get d i' j'")
    case (Inl e)
    then have "cost_sum d ((i', j') # ps) acc = Inl e" by simp
    then show ?thesis using cost_sum_error by blast
  next
    case (Inr c)
    with 2 show ?thesis by auto
  qed
qed

lemma no_loop_key: "valid_instance tsp \<Longrightarrow> dict_get (tsp_cost tsp) v v = Inl KeyError"
proof -
  assume val: "valid_instance tsp"
  show ?thesis
  proof (cases v)
    case (PInt a)
    have "(a, a) \<notin> set (all_arcs (tsp_n tsp))" by (simp add: set_all_arcs)
    then have "(a, a) \<notin> fst ` set (tsp_cost tsp)"
      using val by (metis valid_instance_def arcs_def set_map)
    then have "map_of (tsp_cost tsp) (a, a) = None" by (simp add: map_of_eq_None_iff)
    then show ?thesis using PInt by (simp add: dict_get_def)
  qed (simp_all add: dict_get_def)
qed

lemma derived_cost_fails:
  assumes "valid_instance tsp" and "3 \<le> length tour"
  shows "TSPSolution_init tour None (Some tsp) = Inl KeyError"
proof -
  from assms(2) obtain a b c rest where t: "tour = a # b # c # rest"
    by (cases tour; cases "tl tour"; cases "tl (tl tour)") auto
  have "b \<in> set (butlast tour)" using t by simp
  moreover have "b \<in> set (tl tour)" using t by simp
  ultimately have "(b, b) \<in> set (List.product (butlast tour) (tl tour))" by simp
  then have "cost_sum (tsp_cost tsp) (List.product (butlast tour) (tl tour)) 0 = Inl KeyError"
    using no_loop_key [OF assms(1)] by (rule cost_sum_fails)
  then show ?thesis by (simp add: TSPSolution_init_def)
qed

lemma derived_cost_pair:
  "TSPSolution_init [a, b] None (Some tsp) =
     (case dict_get (tsp_cost tsp) a b of
        Inl e \<Rightarrow> Inl e
      | Inr c \<Rightarrow> Inr \<lparr>sol_tour = [a, b], sol_cost = c\<rparr>)"
  by (simp add: TSPSolution_init_def split: sum.splits)

text \<open>
  Claim C1, at the tour \<open>[0, 1, 2]\<close> of the three-vertex instance. The consecutive pairs are
  \<open>(0, 1)\<close> and \<open>(1, 2)\<close>, with costs 1 and 4. The constructor pairs every element of
  \<open>[0, 1]\<close> with every element of \<open>[1, 2]\<close> instead, and the lookup of \<open>(1, 1)\<close> raises
  \<open>KeyError\<close>, while the same tour with the explicit cost 5 is accepted.
\<close>

theorem derived_cost_raises:
  "TSPSolution_init [PInt 0, PInt 1, PInt 2] None (Some tsp3) = Inl KeyError
   \<and> TSPSolution_init [PInt 0, PInt 1, PInt 2] (Some (1 + 4)) None =
       Inr \<lparr>sol_tour = [PInt 0, PInt 1, PInt 2], sol_cost = 5\<rparr>"
  by (simp add: TSPSolution_init_def tsp3_def dict_get_def)

section \<open>Decoding a snapshot\<close>

subsection \<open>The successor of a vertex\<close>

lemma s_x_init [simp]: "s_x (BranchAndCutIntegerSolver_init tsp) = arcs tsp"
  by (simp add: BranchAndCutIntegerSolver_init_def build_model_def Let_def)

lemma s_tsp_init [simp]: "s_tsp (BranchAndCutIntegerSolver_init tsp) = tsp"
  by (simp add: BranchAndCutIntegerSolver_init_def build_model_def Let_def)

lemma sink_init [simp]: "sink (BranchAndCutIntegerSolver_init tsp) = int (tsp_n tsp) - 1"
  by (simp add: sink_def)

lemma next_vertex_scan_find:
  "\<forall>j\<in>set js. j \<noteq> i \<longrightarrow> (i, j) \<in> set (s_x self) \<Longrightarrow>
   next_vertex_scan self snap (PInt i) js =
     Inr (case find (\<lambda>j. j \<noteq> i \<and> snap (i, j) > 1 / 2) js of None \<Rightarrow> PNone | Some j \<Rightarrow> PInt j)"
  by (induction js) (auto simp: var_value_def)

lemma next_vertex_find:
  assumes "valid_instance tsp" and "i < tsp_n tsp"
  shows "next_vertex (BranchAndCutIntegerSolver_init tsp) snap (PInt (int i)) =
     Inr (case find (\<lambda>j. j \<noteq> i \<and> snap (int i, int j) > 1 / 2) [0..<tsp_n tsp] of
            None \<Rightarrow> PNone | Some j \<Rightarrow> PInt (int j))"
proof -
  have keys: "\<forall>j\<in>set (vertices (tsp_n tsp)). j \<noteq> int i \<longrightarrow> (int i, j) \<in> set (s_x (BranchAndCutIntegerSolver_init tsp))"
    using assms by (auto simp: valid_instance_def set_all_arcs vertices_def)
  have f: "find P (map int js) = map_option int (find (\<lambda>j. P (int j)) js)" for P js
    by (induction js) auto
  show ?thesis
    unfolding next_vertex_def s_tsp_init next_vertex_scan_find [OF keys]
    by (simp add: vertices_def f split: option.splits)
qed

text \<open>
  Claim C5. For a vertex \<open>i\<close> of a valid instance, \<open>next_vertex\<close> returns the lowest \<open>j \<noteq> i\<close>
  whose arc \<open>(i, j)\<close> has a value above 0.5, and \<open>None\<close> when there is no such \<open>j\<close>; it never
  raises.
\<close>

theorem next_vertex_lowest:
  assumes "valid_instance tsp" and "i < tsp_n tsp"
  shows "((\<exists>j<tsp_n tsp. j \<noteq> i \<and> snap (int i, int j) > 1 / 2) \<longrightarrow>
           (\<exists>j<tsp_n tsp. next_vertex (BranchAndCutIntegerSolver_init tsp) snap (PInt (int i)) = Inr (PInt (int j))
               \<and> j \<noteq> i \<and> snap (int i, int j) > 1 / 2
               \<and> (\<forall>k<j. k \<noteq> i \<longrightarrow> \<not> snap (int i, int k) > 1 / 2)))
       \<and> (\<not> (\<exists>j<tsp_n tsp. j \<noteq> i \<and> snap (int i, int j) > 1 / 2) \<longrightarrow>
           next_vertex (BranchAndCutIntegerSolver_init tsp) snap (PInt (int i)) = Inr PNone)"
proof -
  let ?P = "\<lambda>j. j \<noteq> i \<and> snap (int i, int j) > 1 / 2"
  let ?n = "tsp_n tsp"
  note nv = next_vertex_find [OF assms, of snap]
  show ?thesis
  proof (cases "find ?P [0..<?n]")
    case None
    then have "\<not> (\<exists>j<?n. ?P j)" by (auto simp: find_None_iff)
    then show ?thesis using nv None by simp
  next
    case (Some j)
    then obtain m where m: "m < length [0..<?n]" "?P ([0..<?n] ! m)" "j = [0..<?n] ! m"
      "\<forall>k<m. \<not> ?P ([0..<?n] ! k)"
      unfolding find_Some_iff by blast
    then have "j < ?n" "?P j" "\<forall>k<j. \<not> ?P k" by auto
    then show ?thesis using nv Some by auto
  qed
qed

theorem next_vertex_lowest_witness:
  "valid_instance tsp3 \<and> (0::nat) < tsp_n tsp3
   \<and> next_vertex (BranchAndCutIntegerSolver_init tsp3) (selecting [(0, 2), (0, 1)]) (PInt (int 0)) = Inr (PInt (int 1))"
proof -
  have v: "valid_instance tsp3"
    by (rule init_valid [OF tsp3_init])
  have i: "(0::nat) < tsp_n tsp3"
    by (simp add: tsp3_def)
  let ?snap = "selecting [(0, 2), (0, 1)]"
  have ex: "\<exists>j<tsp_n tsp3. j \<noteq> 0 \<and> ?snap (int 0, int j) > 1 / 2"
    by (rule exI [of _ 1]) (simp add: tsp3_def selecting_def)
  from next_vertex_lowest [OF v i, of ?snap] ex
  obtain j where j: "next_vertex (BranchAndCutIntegerSolver_init tsp3) ?snap (PInt (int 0)) = Inr (PInt (int j))"
      "j \<noteq> 0" "\<forall>k<j. k \<noteq> 0 \<longrightarrow> \<not> ?snap (int 0, int k) > 1 / 2"
    by blast
  have "\<not> 1 < j"
  proof
    assume a: "1 < j"
    from j(3) have "(1::nat) < j \<longrightarrow> (1::nat) \<noteq> 0 \<longrightarrow> \<not> ?snap (int 0, int 1) > 1 / 2"
      by blast
    with a show False by (simp add: selecting_def)
  qed
  with j(2) have "j = 1" by simp
  with j(1) v i show ?thesis by simp
qed

subsection \<open>Walking from a vertex\<close>

lemma next_vertex_cases:
  assumes "valid_instance tsp" and "i < tsp_n tsp"
  shows "next_vertex (BranchAndCutIntegerSolver_init tsp) snap (vtx i) = Inr PNone
           \<and> (\<forall>j<tsp_n tsp. \<not> selected snap (int i) (int j))
       \<or> (\<exists>j<tsp_n tsp. next_vertex (BranchAndCutIntegerSolver_init tsp) snap (vtx i) = Inr (vtx j)
             \<and> selected snap (int i) (int j))"
proof -
  let ?P = "\<lambda>j. j \<noteq> i \<and> snap (int i, int j) > 1 / 2"
  note nv = next_vertex_find [OF assms, of snap]
  show ?thesis
  proof (cases "find ?P [0..<tsp_n tsp]")
    case None
    then have "\<forall>j<tsp_n tsp. \<not> ?P j" by (auto simp: find_None_iff)
    then show ?thesis using nv None by (auto simp: selected_def)
  next
    case (Some j)
    then have "j < tsp_n tsp \<and> ?P j" by (auto simp: find_Some_iff)
    then show ?thesis using nv Some by (auto simp: selected_def)
  qed
qed

lemma next_vertex_None:
  "0 < tsp_n (s_tsp self) \<Longrightarrow> next_vertex self snap PNone = Inl KeyError"
  by (simp add: next_vertex_def vertices_def upt_conv_Cons var_value_def)

lemma single_entry_inj:
  assumes se: "single_entry n snap" and "a < n" "b < n" "j < n"
    and sa: "selected snap (int a) (int j)" and sb: "selected snap (int b) (int j)"
  shows "a = b"
proof -
  let ?P = "\<lambda>i. selected snap i (int j)"
  have j: "int j \<in> set (vertices n)" using \<open>j < n\<close> by (simp add: vertices_def)
  have "length (filter ?P (vertices n)) \<le> 1"
    using se j unfolding single_entry_def by blast
  then have "card ({x. ?P x} \<inter> set (vertices n)) \<le> 1"
    by (simp add: distinct_length_filter distinct_vertices)
  moreover have "int a \<in> {x. ?P x} \<inter> set (vertices n)" "int b \<in> {x. ?P x} \<inter> set (vertices n)"
    using sa sb \<open>a < n\<close> \<open>b < n\<close> by (simp_all add: vertices_def)
  ultimately have "int a = int b"
    by (metis One_nat_def card_le_Suc0_iff_eq finite_Int finite_set)
  then show ?thesis by simp
qed


lemma tour_loop_total:
  assumes val: "valid_instance tsp" and se: "single_entry (tsp_n tsp) snap"
  shows "vs \<noteq> [] \<Longrightarrow> hd vs = i0 \<Longrightarrow> distinct vs \<Longrightarrow> set vs \<subseteq> {..<tsp_n tsp} \<Longrightarrow>
     \<forall>v\<in>set (tl vs). int v \<noteq> int (tsp_n tsp) - 1 \<Longrightarrow>
     \<forall>k. Suc k < length vs \<longrightarrow> next_vertex (BranchAndCutIntegerSolver_init tsp) snap (vtx (vs ! k)) = Inr (vtx (vs ! Suc k)) \<Longrightarrow>
     next_vertex (BranchAndCutIntegerSolver_init tsp) snap (vtx (last vs)) = Inr cur \<Longrightarrow>
     (length vs = 1 \<longrightarrow> cur \<noteq> PNone) \<Longrightarrow>
     \<exists>r. tour_loop (BranchAndCutIntegerSolver_init tsp) snap (vtx i0) cur (map vtx vs) = Some r \<and>
       (r = Inl KeyError \<and>
          (\<exists>v<tsp_n tsp. int v \<noteq> int (tsp_n tsp) - 1 \<and> (\<exists>u<tsp_n tsp. selected snap (int u) (int v))
              \<and> (\<forall>w<tsp_n tsp. \<not> selected snap (int v) (int w)))
        \<or> (\<exists>ws. r = Inr (map vtx ws) \<and> ws \<noteq> [] \<and> hd ws = i0 \<and> distinct ws \<and> set ws \<subseteq> {..<tsp_n tsp}
              \<and> (int (last ws) = int (tsp_n tsp) - 1 \<or> selected snap (int (last ws)) (int i0))))"
proof (induction "tsp_n tsp - length vs" arbitrary: vs cur rule: less_induct)
  case less
  let ?n = "tsp_n tsp"
  let ?S = "BranchAndCutIntegerSolver_init tsp"
  note ne = \<open>vs \<noteq> []\<close> and hd = \<open>hd vs = i0\<close> and dist = \<open>distinct vs\<close> and sub = \<open>set vs \<subseteq> {..<?n}\<close>
  note nosink = less.prems(5) and chain = less.prems(6) and cur = less.prems(7) and first = less.prems(8)
  have lastn: "last vs < ?n" using ne sub last_in_set by blast
  have i0n: "i0 < ?n" using ne sub hd hd_in_set by blast
  from next_vertex_cases [OF val lastn, of snap] cur
  consider (none) "cur = PNone" "\<forall>j<?n. \<not> selected snap (int (last vs)) (int j)"
    | (some) j where "j < ?n" "cur = vtx j" "selected snap (int (last vs)) (int j)"
    by auto
  then show ?case
  proof cases
    case none
    then have "length vs \<noteq> 1" using first by blast
    then have len: "2 \<le> length vs" using ne by (cases vs) (auto simp: Suc_le_eq)
    then have lt: "last vs \<in> set (tl vs)"
      using ne by (cases vs) auto
    have ns: "int (last vs) \<noteq> int ?n - 1" using nosink lt by blast
    obtain k where k: "Suc k < length vs" "Suc k = length vs - 1" using len
      by (metis Suc_diff_Suc Suc_1 diff_Suc_less diff_zero less_le_trans zero_less_Suc numeral_2_eq_2 Suc_le_lessD)
    have lk: "last vs = vs ! Suc k" using k ne by (simp add: last_conv_nth)
    have "next_vertex ?S snap (vtx (vs ! k)) = Inr (vtx (last vs))" using chain k lk by simp
    moreover have "vs ! k < ?n" using k sub by (meson Suc_lessD lessThan_iff nth_mem subsetD)
    ultimately have ent: "selected snap (int (vs ! k)) (int (last vs))"
      using next_vertex_cases [OF val \<open>vs ! k < ?n\<close>, of snap] by auto
    have "tour_loop ?S snap (vtx i0) cur (map vtx vs) = Some (Inl KeyError)"
      using none(1) i0n
      by (subst tour_loop.simps) (simp add: next_vertex_None Let_def)
    then show ?thesis using lastn ns ent none(2) \<open>vs ! k < ?n\<close> by blast
  next
    case some
    show ?thesis
    proof (cases "j = i0")
      case True
      then have "tour_loop ?S snap (vtx i0) cur (map vtx vs) = Some (Inr (map vtx vs))"
        using some(2) by (subst tour_loop.simps) simp
      then show ?thesis using ne hd dist sub some(3) True by blast
    next
      case False
      have fresh: "j \<notin> set vs"
      proof
        assume "j \<in> set vs"
        then obtain m where m: "m < length vs" "vs ! m = j" by (auto simp: in_set_conv_nth)
        have "m \<noteq> 0"
        proof
          assume "m = 0"
          then have "j = hd vs" using m ne by (simp add: hd_conv_nth)
          with False hd show False by simp
        qed
        then obtain m' where m': "m = Suc m'" by (cases m) auto
        have "next_vertex ?S snap (vtx (vs ! m')) = Inr (vtx j)" using chain m m' by auto
        moreover have m'n: "vs ! m' < ?n" using m m' sub by (meson Suc_lessD lessThan_iff nth_mem subsetD)
        ultimately have "selected snap (int (vs ! m')) (int j)"
          using next_vertex_cases [OF val m'n, of snap] by auto
        then have "vs ! m' = last vs"
          using single_entry_inj [OF se m'n lastn some(1) _ some(3)] by simp
        then have "vs ! m' = vs ! (length vs - 1)" using ne by (simp add: last_conv_nth)
        then have "m' = length vs - 1"
          using dist m m' by (simp add: nth_eq_iff_index_eq)
        then show False using m m' by simp
      qed
      let ?vs' = "vs @ [j]"
      have d': "distinct ?vs'" using dist fresh by simp
      have s': "set ?vs' \<subseteq> {..<?n}" using sub some(1) by simp
      have "card (set ?vs') \<le> card {..<?n}" using s' by (intro card_mono) auto
      then have len': "length ?vs' \<le> ?n" using d' by (simp add: distinct_card)
      show ?thesis
      proof (cases "int j = int ?n - 1")
        case True
        then have r: "tour_loop ?S snap (vtx i0) cur (map vtx vs) = Some (Inr (map vtx ?vs'))"
          using some(2) False by (subst tour_loop.simps) (simp add: Let_def)
        have h': "hd ?vs' = i0" using ne hd by simp
        have n': "?vs' \<noteq> []" by simp
        have l': "int (last ?vs') = int ?n - 1" using True by simp
        show ?thesis using r h' n' d' s' l' by blast
      next
        case nsink: False
        from next_vertex_cases [OF val some(1), of snap]
        obtain c where c: "next_vertex ?S snap (vtx j) = Inr c" by auto
        have step: "tour_loop ?S snap (vtx i0) cur (map vtx vs) = tour_loop ?S snap (vtx i0) c (map vtx ?vs')"
          using some(2) False nsink c by (subst tour_loop.simps) (simp add: Let_def)
        have meas: "?n - length ?vs' < ?n - length vs" using len' by simp
        have p1: "?vs' \<noteq> []" by simp
        have p2: "hd ?vs' = i0" using ne hd by simp
        have p5: "\<forall>v\<in>set (tl ?vs'). int v \<noteq> int ?n - 1" using nosink nsink ne by auto
        have p6: "\<forall>k. Suc k < length ?vs' \<longrightarrow>
            next_vertex ?S snap (vtx (?vs' ! k)) = Inr (vtx (?vs' ! Suc k))"
        proof (intro allI impI)
          fix k assume k: "Suc k < length ?vs'"
          show "next_vertex ?S snap (vtx (?vs' ! k)) = Inr (vtx (?vs' ! Suc k))"
          proof (cases "Suc k < length vs")
            case True
            then show ?thesis using chain by (simp add: nth_append)
          next
            case False
            then have e: "k = length vs - 1" "Suc k = length vs" using k by simp_all
            have "?vs' ! k = last vs"
              using ne e by (simp add: nth_append last_conv_nth)
            moreover have "?vs' ! Suc k = j"
              using e(2) by (simp add: nth_append)
            ultimately have "?vs' ! k = last vs" "?vs' ! Suc k = j" by simp_all
            then show ?thesis using cur some(2) by simp
          qed
        qed
        have p7: "next_vertex ?S snap (vtx (last ?vs')) = Inr c" using c by simp
        have p8: "length ?vs' = 1 \<longrightarrow> c \<noteq> PNone" using ne by simp
        from less.hyps [OF meas p1 p2 d' s' p5 p6 p7 p8] step
        show ?thesis by simp
      qed
    qed
  qed
qed

lemma tour_starting_at_total:
  assumes val: "valid_instance tsp" and se: "single_entry (tsp_n tsp) snap" and i: "i < tsp_n tsp"
  shows "\<exists>r. tour_starting_at (BranchAndCutIntegerSolver_init tsp) snap (vtx i) = Some r \<and>
       (r = Inl KeyError \<and>
          (\<exists>v<tsp_n tsp. int v \<noteq> int (tsp_n tsp) - 1 \<and> (\<exists>u<tsp_n tsp. selected snap (int u) (int v))
              \<and> (\<forall>w<tsp_n tsp. \<not> selected snap (int v) (int w)))
        \<or> (\<exists>ws. r = Inr (map vtx ws) \<and> ws \<noteq> [] \<and> hd ws = i \<and> distinct ws \<and> set ws \<subseteq> {..<tsp_n tsp}
              \<and> (ws = [i] \<and> (\<forall>w<tsp_n tsp. \<not> selected snap (int i) (int w))
                 \<or> int (last ws) = int (tsp_n tsp) - 1 \<or> selected snap (int (last ws)) (int i))))"
proof -
  let ?S = "BranchAndCutIntegerSolver_init tsp"
  from next_vertex_cases [OF val i, of snap]
  consider (none) "next_vertex ?S snap (vtx i) = Inr PNone" "\<forall>j<tsp_n tsp. \<not> selected snap (int i) (int j)"
    | (some) j where "j < tsp_n tsp" "next_vertex ?S snap (vtx i) = Inr (vtx j)"
    by blast
  then show ?thesis
  proof cases
    case none
    then have "tour_starting_at ?S snap (vtx i) = Some (Inr (map vtx [i]))"
      by (simp add: tour_starting_at_def)
    moreover have "[i] \<noteq> []" "hd [i] = i" "distinct [i]" "set [i] \<subseteq> {..<tsp_n tsp}"
      using i by simp_all
    ultimately show ?thesis using none(2) by blast
  next
    case some
    have eq: "tour_starting_at ?S snap (vtx i) = tour_loop ?S snap (vtx i) (vtx j) (map vtx [i])"
      using some(2) by (simp add: tour_starting_at_def)
    have "\<exists>r. tour_loop ?S snap (vtx i) (vtx j) (map vtx [i]) = Some r \<and>
       (r = Inl KeyError \<and>
          (\<exists>v<tsp_n tsp. int v \<noteq> int (tsp_n tsp) - 1 \<and> (\<exists>u<tsp_n tsp. selected snap (int u) (int v))
              \<and> (\<forall>w<tsp_n tsp. \<not> selected snap (int v) (int w)))
        \<or> (\<exists>ws. r = Inr (map vtx ws) \<and> ws \<noteq> [] \<and> hd ws = i \<and> distinct ws \<and> set ws \<subseteq> {..<tsp_n tsp}
              \<and> (int (last ws) = int (tsp_n tsp) - 1 \<or> selected snap (int (last ws)) (int i))))"
      using i some(2) by (intro tour_loop_total [OF val se]) simp_all
    then show ?thesis unfolding eq by blast
  qed
qed

lemma distinct_vtx: "distinct ws \<Longrightarrow> distinct (map vtx ws)"
  by (simp add: distinct_map inj_on_def)

lemma length_le_n: "distinct ws \<Longrightarrow> set ws \<subseteq> {..<n} \<Longrightarrow> length ws \<le> n"
proof -
  assume d: "distinct ws" and s: "set ws \<subseteq> {..<n}"
  have "card (set ws) \<le> card {..<n}" using s by (intro card_mono) auto
  then show ?thesis using d by (simp add: distinct_card)
qed

text \<open>
  Four vertices with the selected arcs \<open>(0, 3)\<close>, \<open>(1, 2)\<close>, \<open>(2, 1)\<close>: the path from the source
  to the sink and, apart from it, a loop between 1 and 2.
\<close>

lemma nv_two_parts:
  "next_vertex (BranchAndCutIntegerSolver_init tsp4) (selecting [(0, 3), (1, 2), (2, 1)]) (PInt 0) = Inr (PInt 3)"
  "next_vertex (BranchAndCutIntegerSolver_init tsp4) (selecting [(0, 3), (1, 2), (2, 1)]) (PInt 1) = Inr (PInt 2)"
  "next_vertex (BranchAndCutIntegerSolver_init tsp4) (selecting [(0, 3), (1, 2), (2, 1)]) (PInt 2) = Inr (PInt 1)"
  by (simp_all add: next_vertex_def vertices_def upt_rec var_value_def selecting_def tsp4_def arcs_def)

lemma walk_from_0:
  "tour_starting_at (BranchAndCutIntegerSolver_init tsp4) (selecting [(0, 3), (1, 2), (2, 1)]) (PInt 0)
     = Some (Inr [PInt 0, PInt 3])"
proof -
  have n: "tsp_n tsp4 = 4" by (simp add: tsp4_def)
  have "tour_loop (BranchAndCutIntegerSolver_init tsp4) (selecting [(0, 3), (1, 2), (2, 1)]) (PInt 0) (PInt 3) [PInt 0]
      = Some (Inr [PInt 0, PInt 3])"
    by (subst tour_loop.simps) (simp add: n)
  then show ?thesis by (simp add: tour_starting_at_def nv_two_parts)
qed


text \<open>
  Claim C3, as the code has it. In a snapshot in which no vertex has more than one
  selected incoming arc (every assignment that satisfies the base model is such a
  snapshot), the walk from a vertex \<open>i\<close> of a valid instance terminates after visiting each
  vertex at most once: it returns a list of at most \<open>n\<close> distinct vertices that starts with
  \<open>i\<close>, or it raises \<open>KeyError\<close>.
\<close>

theorem tour_terminates:
  assumes "valid_instance tsp" and "single_entry (tsp_n tsp) snap" and "i < tsp_n tsp"
  shows "\<exists>r. tour_starting_at (BranchAndCutIntegerSolver_init tsp) snap (vtx i) = Some r \<and>
       (r = Inl KeyError \<or>
        (\<exists>ws. r = Inr (map vtx ws) \<and> hd ws = i \<and> distinct ws \<and> set ws \<subseteq> {..<tsp_n tsp}
              \<and> length ws \<le> tsp_n tsp))"
  using tour_starting_at_total [OF assms] length_le_n by blast

theorem tour_terminates_witness:
  "valid_instance tsp4 \<and> single_entry (tsp_n tsp4) (selecting [(0, 3), (1, 2), (2, 1)])
   \<and> (0::nat) < tsp_n tsp4
   \<and> tour_starting_at (BranchAndCutIntegerSolver_init tsp4) (selecting [(0, 3), (1, 2), (2, 1)]) (vtx 0)
       = Some (Inr [vtx 0, vtx 3])"
proof -
  let ?snap = "selecting [(0, 3), (1, 2), (2, 1)]"
  have v: "valid_instance tsp4" by (rule init_valid [OF tsp4_init])
  have s: "single_entry (tsp_n tsp4) ?snap"
    by (simp add: single_entry_def tsp4_def vertices_def upt_rec selected_def selecting_def)
  have i: "(0::nat) < tsp_n tsp4" by (simp add: tsp4_def)
  from tour_terminates [OF v s i] v s i walk_from_0 show ?thesis by simp
qed

text \<open>
  Without that condition the walk need not terminate. With four vertices and the selected
  arcs \<open>(0, 1)\<close>, \<open>(1, 2)\<close>, \<open>(2, 1)\<close>, the walk from 0 enters the loop between 1 and 2, which
  contains neither the start nor the sink 3, and never leaves it.
\<close>

lemma nv_rho:
  "next_vertex (BranchAndCutIntegerSolver_init tsp4) (selecting [(0, 1), (1, 2), (2, 1)]) (PInt 0) = Inr (PInt 1)"
  "next_vertex (BranchAndCutIntegerSolver_init tsp4) (selecting [(0, 1), (1, 2), (2, 1)]) (PInt 1) = Inr (PInt 2)"
  "next_vertex (BranchAndCutIntegerSolver_init tsp4) (selecting [(0, 1), (1, 2), (2, 1)]) (PInt 2) = Inr (PInt 1)"
  by code_simp+

lemma rho_loop:
  assumes "tour_loop self snap i current tour = Some r"
  shows "self = BranchAndCutIntegerSolver_init tsp4 \<longrightarrow> snap = selecting [(0, 1), (1, 2), (2, 1)] \<longrightarrow> i = PInt 0 \<longrightarrow>
     (current = PInt 1 \<or> current = PInt 2) \<longrightarrow> False"
  using assms
proof (induction rule: tour_loop.raw_induct [rotated 1, consumes 1])
  case (1 tour_loop' self snap i current tour r)
  have n: "tsp_n tsp4 = 4" by (simp add: tsp4_def)
  show ?case
  proof (intro impI)
    assume a: "self = BranchAndCutIntegerSolver_init tsp4" "snap = selecting [(0, 1), (1, 2), (2, 1)]" "i = PInt 0"
      and c: "current = PInt 1 \<or> current = PInt 2"
    from c show False
    proof
      assume "current = PInt 1"
      with 1(2) a have "tour_loop' self snap i (PInt 2) (tour @ [PInt 1]) = Some r"
        by (simp add: nv_rho n)
      from 1(1) [OF this] a show False by simp
    next
      assume "current = PInt 2"
      with 1(2) a have "tour_loop' self snap i (PInt 1) (tour @ [PInt 2]) = Some r"
        by (simp add: nv_rho n)
      from 1(1) [OF this] a show False by simp
    qed
  qed
qed

theorem walk_into_loop_diverges:
  "tour_starting_at (BranchAndCutIntegerSolver_init tsp4) (selecting [(0, 1), (1, 2), (2, 1)]) (PInt 0) = None"
proof (cases "tour_starting_at (BranchAndCutIntegerSolver_init tsp4) (selecting [(0, 1), (1, 2), (2, 1)]) (PInt 0)")
  case None
  then show ?thesis .
next
  case (Some r)
  then have "tour_loop (BranchAndCutIntegerSolver_init tsp4) (selecting [(0, 1), (1, 2), (2, 1)]) (PInt 0) (PInt 1) [PInt 0] = Some r"
    by (simp add: tour_starting_at_def nv_rho)
  from rho_loop [OF this] have False by simp
  then show ?thesis ..
qed

lemma dangling_raises:
  assumes "0 < tsp_n (s_tsp self)" and "current \<noteq> i" and "current \<noteq> PInt (sink self)"
    and "next_vertex self snap current = Inr PNone" and "i \<noteq> PNone"
  shows "tour_loop self snap i current tour = Some (Inl KeyError)"
proof -
  have "tour_loop self snap i current tour = tour_loop self snap i PNone (tour @ [current])"
    using assms by (subst tour_loop.simps) (simp add: Let_def)
  also have "\<dots> = Some (Inl KeyError)"
    using assms by (subst tour_loop.simps) (simp add: Let_def next_vertex_None)
  finally show ?thesis .
qed

text \<open>
  A walk that dangles after its first step does not return the path. With three vertices
  and the single selected arc \<open>(0, 1)\<close>, the walk from 0 reaches vertex 1, for which
  \<open>next_vertex\<close> returns \<open>None\<close>; the loop, which expects to end at the sink or at the start,
  appends \<open>None\<close> to the tour and looks up an arc out of it, which raises \<open>KeyError\<close>. The
  snapshot violates the flow conservation of the base model.
\<close>

theorem dangling_walk_raises:
  "next_vertex (BranchAndCutIntegerSolver_init tsp3) (selecting [(0, 1)]) (PInt 0) = Inr (PInt 1)
   \<and> next_vertex (BranchAndCutIntegerSolver_init tsp3) (selecting [(0, 1)]) (PInt 1) = Inr PNone
   \<and> tour_starting_at (BranchAndCutIntegerSolver_init tsp3) (selecting [(0, 1)]) (PInt 0) = Some (Inl KeyError)"
proof -
  let ?S = "BranchAndCutIntegerSolver_init tsp3" and ?snap = "selecting [(0, 1)]"
  have nv: "next_vertex ?S ?snap (PInt 0) = Inr (PInt 1)" "next_vertex ?S ?snap (PInt 1) = Inr PNone"
    by (simp_all add: next_vertex_def vertices_def upt_rec var_value_def selecting_def tsp3_def arcs_def)
  have n: "tsp_n tsp3 = 3" by (simp add: tsp3_def)
  have "tour_loop ?S ?snap (PInt 0) (PInt 1) [PInt 0] = Some (Inl KeyError)"
    using nv(2) by (intro dangling_raises) (simp_all add: n)
  then show ?thesis using nv by (simp add: tour_starting_at_def)
qed

section \<open>The base model\<close>

lemma out_row:
  "filter (\<lambda>(a, b). a = v) (row_arcs is vs) =
     concat (map (\<lambda>i. if i = v then map (Pair i) (filter (\<lambda>j. i \<noteq> j) vs) else []) is)"
  by (induction "is") (auto simp: row_arcs_def filter_map comp_def)

lemma concat_single:
  "distinct is \<Longrightarrow> concat (map (\<lambda>i. if i = v then f i else []) is) = (if v \<in> set is then f v else [])"
  by (induction "is") auto

lemma out_arcs:
  "x_sum (all_arcs n) (Lit v) Wild =
     (if v \<in> set (vertices n) then map (Pair v) (filter (\<lambda>j. j \<noteq> v) (vertices n)) else [])"
proof -
  have "(\<lambda>j. v \<noteq> j) = (\<lambda>j. j \<noteq> v)" by auto
  then show ?thesis
    by (simp add: x_sum_def all_arcs_def out_row concat_single distinct_vertices)
qed

lemma in_row:
  "distinct vs \<Longrightarrow> filter (\<lambda>(a, b). b = v) (row_arcs is vs) =
     (if v \<in> set vs then map (\<lambda>i. (i, v)) (filter (\<lambda>i. i \<noteq> v) is) else [])"
proof (induction "is")
  case Nil
  then show ?case by (simp add: row_arcs_def)
next
  case (Cons i "is")
  have row: "filter (\<lambda>(a, b). b = v) (map (Pair i) (filter (\<lambda>j. i \<noteq> j) vs)) =
     (if v \<in> set vs \<and> i \<noteq> v then [(i, v)] else [])"
    using \<open>distinct vs\<close>
    by (induction vs) (auto simp: filter_empty_conv)
  have "row_arcs (i # is) vs = map (Pair i) (filter (\<lambda>j. i \<noteq> j) vs) @ row_arcs is vs"
    by (simp add: row_arcs_def)
  then show ?case using Cons row by simp
qed

lemma in_arcs:
  "x_sum (all_arcs n) Wild (Lit v) =
     (if v \<in> set (vertices n) then map (\<lambda>i. (i, v)) (filter (\<lambda>i. i \<noteq> v) (vertices n)) else [])"
  by (simp add: x_sum_def all_arcs_def in_row distinct_vertices)

lemma out_value:
  "v \<in> set (vertices n) \<or> n = 0 \<Longrightarrow> lin_value a (x_sum (all_arcs n) (Lit v) Wild) = out_degree n a v"
  by (auto simp: out_arcs lin_value_def out_degree_def comp_def vertices_def)

lemma in_value:
  "v \<in> set (vertices n) \<or> n = 0 \<Longrightarrow> lin_value a (x_sum (all_arcs n) Wild (Lit v)) = in_degree n a v"
  by (auto simp: in_arcs lin_value_def in_degree_def comp_def vertices_def)


lemma set_vertices: "set (vertices n) = {0..int n - 1}"
proof -
  have "int ` {0..<n} = {0..<int n}" by (simp add: image_int_atLeastLessThan)
  then show ?thesis by (auto simp: vertices_def)
qed

lemma set_interior: "set (map int [1..<n - 1]) = {1..int n - 2}"
proof -
  have "int ` {1..<n - 1} = {int 1..<int (n - 1)}" by (rule image_int_atLeastLessThan)
  then show ?thesis by auto
qed

lemma m_vars_init: "m_vars (s_m (BranchAndCutIntegerSolver_init tsp)) = tsp_cost tsp"
  by (simp add: BranchAndCutIntegerSolver_init_def build_model_def Let_def)

lemma m_vtype_init: "m_vtype (s_m (BranchAndCutIntegerSolver_init tsp)) = BINARY"
  by (simp add: BranchAndCutIntegerSolver_init_def build_model_def Let_def)

lemma m_constrs_init:
  "m_constrs (s_m (BranchAndCutIntegerSolver_init tsp)) =
     [EqConst (x_sum (arcs tsp) (Lit 0) Wild) 1,
      EqConst (x_sum (arcs tsp) Wild (Lit (int (tsp_n tsp) - 1))) 1]
     @ map (\<lambda>i. EqExpr (x_sum (arcs tsp) (Lit i) Wild) (x_sum (arcs tsp) Wild (Lit i)))
           (map int [1..<tsp_n tsp - 1])
     @ [EqConst (x_sum (arcs tsp) (Lit (int (tsp_n tsp) - 1)) Wild) 0,
        EqConst (x_sum (arcs tsp) Wild (Lit 0)) 0]
     @ map (\<lambda>i. LeConst (x_sum (arcs tsp) (Lit i) Wild) 1) (vertices (tsp_n tsp))"
  by (simp add: BranchAndCutIntegerSolver_init_def build_model_def Let_def sink_def)

lemma constraints_iff_degrees:
  assumes "valid_instance tsp"
  shows "(\<forall>c\<in>set (m_constrs (s_m (BranchAndCutIntegerSolver_init tsp))). holds a c) \<longleftrightarrow>
          out_degree (tsp_n tsp) a 0 = 1
        \<and> in_degree (tsp_n tsp) a (int (tsp_n tsp) - 1) = 1
        \<and> (\<forall>v\<in>{1..int (tsp_n tsp) - 2}. out_degree (tsp_n tsp) a v = in_degree (tsp_n tsp) a v)
        \<and> out_degree (tsp_n tsp) a (int (tsp_n tsp) - 1) = 0
        \<and> in_degree (tsp_n tsp) a 0 = 0
        \<and> (\<forall>v\<in>{0..int (tsp_n tsp) - 1}. out_degree (tsp_n tsp) a v \<le> 1)"
proof -
  let ?n = "tsp_n tsp"
  have ks: "arcs tsp = all_arcs ?n" using assms by (simp add: valid_instance_def)
  have v0: "0 \<in> set (vertices ?n) \<or> ?n = 0" by (auto simp: set_vertices)
  have vs: "int ?n - 1 \<in> set (vertices ?n) \<or> ?n = 0" by (auto simp: set_vertices)
  have vi: "v \<in> set (vertices ?n) \<or> ?n = 0" if "v \<in> {1..int ?n - 2}" for v
    using that by (auto simp: set_vertices)
  have vv: "v \<in> set (vertices ?n) \<or> ?n = 0" if "v \<in> {0..int ?n - 1}" for v
    using that by (auto simp: set_vertices)
  have interior:
    "(\<forall>c\<in>set (map (\<lambda>i. EqExpr (x_sum (all_arcs ?n) (Lit i) Wild) (x_sum (all_arcs ?n) Wild (Lit i)))
                  (map int [1..<?n - 1])). holds a c)
     \<longleftrightarrow> (\<forall>v\<in>{1..int ?n - 2}. out_degree ?n a v = in_degree ?n a v)"
  proof -
    have "(\<forall>c\<in>set (map (\<lambda>i. EqExpr (x_sum (all_arcs ?n) (Lit i) Wild) (x_sum (all_arcs ?n) Wild (Lit i)))
                  (map int [1..<?n - 1])). holds a c)
      \<longleftrightarrow> (\<forall>v\<in>set (map int [1..<?n - 1]).
              lin_value a (x_sum (all_arcs ?n) (Lit v) Wild) = lin_value a (x_sum (all_arcs ?n) Wild (Lit v)))"
      by (simp del: set_upt)
    also have "\<dots> \<longleftrightarrow> (\<forall>v\<in>{1..int ?n - 2}.
              lin_value a (x_sum (all_arcs ?n) (Lit v) Wild) = lin_value a (x_sum (all_arcs ?n) Wild (Lit v)))"
      unfolding set_interior ..
    also have "\<dots> \<longleftrightarrow> (\<forall>v\<in>{1..int ?n - 2}. out_degree ?n a v = in_degree ?n a v)"
      using out_value [OF vi, of _ a] in_value [OF vi, of _ a] by auto
    finally show ?thesis .
  qed
  have atmost:
    "(\<forall>c\<in>set (map (\<lambda>i. LeConst (x_sum (all_arcs ?n) (Lit i) Wild) 1) (vertices ?n)). holds a c)
     \<longleftrightarrow> (\<forall>v\<in>{0..int ?n - 1}. out_degree ?n a v \<le> 1)"
  proof -
    have "(\<forall>c\<in>set (map (\<lambda>i. LeConst (x_sum (all_arcs ?n) (Lit i) Wild) 1) (vertices ?n)). holds a c)
      \<longleftrightarrow> (\<forall>v\<in>set (vertices ?n). lin_value a (x_sum (all_arcs ?n) (Lit v) Wild) \<le> 1)"
      by simp
    also have "\<dots> \<longleftrightarrow> (\<forall>v\<in>{0..int ?n - 1}. lin_value a (x_sum (all_arcs ?n) (Lit v) Wild) \<le> 1)"
      unfolding set_vertices ..
    also have "\<dots> \<longleftrightarrow> (\<forall>v\<in>{0..int ?n - 1}. out_degree ?n a v \<le> 1)"
      using out_value [OF vv, of _ a] by auto
    finally show ?thesis .
  qed
  show ?thesis
    unfolding m_constrs_init ks set_append ball_Un interior atmost
    using out_value [OF v0, of a] in_value [OF v0, of a] out_value [OF vs, of a] in_value [OF vs, of a]
    by auto
qed

lemma satisfies_iff: "satisfies a cs \<longleftrightarrow> (\<forall>c\<in>set cs. holds a c)"
  by (simp add: satisfies_def list_all_iff)

lemma length_constrs:
  "length (m_constrs (s_m (BranchAndCutIntegerSolver_init tsp))) = 4 + (tsp_n tsp - 2) + tsp_n tsp"
  by (simp add: m_constrs_init vertices_def)

text \<open>
  Claim C7. For a valid instance with \<open>n\<close> vertices, the model built by the constructor has
  one binary variable per arc, whose objective coefficient is the cost of the arc, and
  \<open>4 + (n - 2) + n\<close> constraints, which an assignment satisfies exactly when
  out-degree(0) = 1, in-degree(n-1) = 1, out-degree(v) = in-degree(v) for every interior
  vertex \<open>v\<close> of \<open>1..n-2\<close>, out-degree(n-1) = 0, in-degree(0) = 0, and out-degree(v) \<le> 1 for
  every vertex \<open>v\<close>.
\<close>

theorem base_model:
  assumes "valid_instance tsp"
  shows "m_vars (s_m (BranchAndCutIntegerSolver_init tsp)) = tsp_cost tsp
     \<and> m_vtype (s_m (BranchAndCutIntegerSolver_init tsp)) = BINARY
     \<and> length (m_constrs (s_m (BranchAndCutIntegerSolver_init tsp))) = 4 + (tsp_n tsp - 2) + tsp_n tsp
     \<and> (satisfies a (m_constrs (s_m (BranchAndCutIntegerSolver_init tsp))) \<longleftrightarrow>
          out_degree (tsp_n tsp) a 0 = 1
        \<and> in_degree (tsp_n tsp) a (int (tsp_n tsp) - 1) = 1
        \<and> (\<forall>v\<in>{1..int (tsp_n tsp) - 2}. out_degree (tsp_n tsp) a v = in_degree (tsp_n tsp) a v)
        \<and> out_degree (tsp_n tsp) a (int (tsp_n tsp) - 1) = 0
        \<and> in_degree (tsp_n tsp) a 0 = 0
        \<and> (\<forall>v\<in>{0..int (tsp_n tsp) - 1}. out_degree (tsp_n tsp) a v \<le> 1))"
  using constraints_iff_degrees [OF assms, of a] length_constrs [of tsp] m_vars_init [of tsp]
    m_vtype_init [of tsp]
  by (simp add: satisfies_iff)

text \<open>The base model of the three-vertex instance, and the path \<open>0, 1, 2\<close> satisfying it.\<close>

lemma path3_degrees:
  "out_degree 3 (selecting [(0, 1), (1, 2)]) 0 = 1"
  "out_degree 3 (selecting [(0, 1), (1, 2)]) 1 = 1"
  "out_degree 3 (selecting [(0, 1), (1, 2)]) 2 = 0"
  "in_degree 3 (selecting [(0, 1), (1, 2)]) 0 = 0"
  "in_degree 3 (selecting [(0, 1), (1, 2)]) 1 = 1"
  "in_degree 3 (selecting [(0, 1), (1, 2)]) 2 = 1"
  by (simp_all add: out_degree_def in_degree_def vertices_def upt_rec selecting_def)

lemma path3_holds:
  "satisfies (selecting [(0, 1), (1, 2)]) (m_constrs (s_m (BranchAndCutIntegerSolver_init tsp3)))"
proof -
  have v: "valid_instance tsp3" by (rule init_valid [OF tsp3_init])
  have n: "tsp_n tsp3 = 3" by (simp add: tsp3_def)
  have i1: "{1..int 3 - 2} = {1}" by auto
  have i2: "{0..int 3 - 1} = {0, 1, 2}" by auto
  show ?thesis
    using constraints_iff_degrees [OF v, of "selecting [(0, 1), (1, 2)]"]
    unfolding n i1 i2 satisfies_iff by (simp add: path3_degrees)
qed

theorem base_model_witness:
  "valid_instance tsp3
   \<and> m_vars (s_m (BranchAndCutIntegerSolver_init tsp3)) = tsp_cost tsp3
   \<and> m_vtype (s_m (BranchAndCutIntegerSolver_init tsp3)) = BINARY
   \<and> length (m_constrs (s_m (BranchAndCutIntegerSolver_init tsp3))) = 8
   \<and> satisfies (selecting [(0, 1), (1, 2)]) (m_constrs (s_m (BranchAndCutIntegerSolver_init tsp3)))"
proof -
  have v: "valid_instance tsp3" by (rule init_valid [OF tsp3_init])
  have n: "tsp_n tsp3 = 3" by (simp add: tsp3_def)
  have i1: "{1..int 3 - 2} = {1}" by auto
  have i2: "{0..int 3 - 1} = {0, 1, 2}" by auto
  show ?thesis
    using base_model [OF v, of "selecting [(0, 1), (1, 2)]"] v
    unfolding n i1 i2 by (simp add: path3_degrees)
qed

section \<open>Submitting subtour elimination constraints\<close>

text \<open>
  Claim C2, for every non-empty list of vertices. \<open>__add_sec_for\<close> iterates over the
  vertices of the subtour and unpacks each into a pair; the first vertex is an int, so
  the unpacking raises \<open>TypeError\<close> and nothing is handed to \<open>cbLazy\<close>.
\<close>

theorem sec_raises: "add_sec_for self (map PInt (v # vs)) = Inl TypeError"
  by (simp add: add_sec_for_def)

subsection \<open>The scan for subtours\<close>

lemma tour_loop_prefix:
  assumes "tour_loop self snap i current tour = Some r"
  shows "\<forall>t. r = Inr t \<longrightarrow> (\<exists>suf. t = tour @ suf)"
  using assms
proof (induction rule: tour_loop.raw_induct [rotated 1, consumes 1])
  case (1 tour_loop' self snap i current tour r)
  show ?case
  proof (cases "current = i")
    case True
    with 1(2) show ?thesis by auto
  next
    case False
    show ?thesis
    proof (cases "current = PInt (sink self)")
      case True
      with False 1(2) show ?thesis by (auto simp: Let_def)
    next
      case ns: False
      show ?thesis
      proof (cases "next_vertex self snap current")
        case (Inl e)
        with False ns 1(2) show ?thesis by (auto simp: Let_def)
      next
        case (Inr c)
        with False ns 1(2) have "tour_loop' self snap i c (tour @ [current]) = Some r"
          by (simp add: Let_def)
        from 1(1) [OF this] show ?thesis by auto
      qed
    qed
  qed
qed

lemma tour_starting_at_hd:
  "tour_starting_at self snap i = Some (Inr t) \<Longrightarrow> \<exists>suf. t = i # suf"
  using tour_loop_prefix [of self snap i _ "[i]" "Inr t"]
  by (auto simp: tour_starting_at_def split: sum.splits if_splits)

lemma scan_loop_once:
  "scan_loop self snap pick remaining sent =
     (if remaining = {} then Some (sent, Inr ())
      else
        (case tour_starting_at self snap (PInt (pick remaining)) of
           None \<Rightarrow> None
         | Some (Inl e) \<Rightarrow> Some (sent, Inl e)
         | Some (Inr subtour) \<Rightarrow>
             if subtour = [PInt (pick remaining)] \<or> last subtour = PInt (sink self)
             then Some (sent, Inr ())
             else Some (sent, Inl TypeError)))"
proof (cases "remaining = {}")
  case True
  then show ?thesis by (subst scan_loop.simps) simp
next
  case False
  show ?thesis
  proof (cases "tour_starting_at self snap (PInt (pick remaining))")
    case None
    with False show ?thesis by (subst scan_loop.simps) simp
  next
    case (Some r)
    show ?thesis
    proof (cases r)
      case (Inl e)
      with Some False show ?thesis by (subst scan_loop.simps) simp
    next
      case (Inr subtour)
      then obtain suf where suf: "subtour = PInt (pick remaining) # suf"
        using tour_starting_at_hd Some by blast
      have "add_sec_for self subtour = Inl TypeError"
        by (simp add: suf add_sec_for_def)
      with Some Inr False suf show ?thesis
        by (subst scan_loop.simps) (auto simp: Let_def)
    qed
  qed
qed

lemma find_subtours_submits_nothing:
  "find_subtours self snap pick w = Some (sent, r) \<Longrightarrow> sent = []"
  by (auto simp: find_subtours_def scan_loop_once split: if_splits option.splits sum.splits)

lemma scan_stops_on_legal_walk:
  assumes "remaining \<noteq> {}"
    and "tour_starting_at self snap (PInt (pick remaining)) = Some (Inr subtour)"
    and "length subtour < 2 \<or> subtour = [PInt (pick remaining)] \<or> last subtour = PInt (sink self)"
  shows "scan_loop self snap pick remaining sent = Some (sent, Inr ())"
proof -
  obtain suf where suf: "subtour = PInt (pick remaining) # suf"
    using tour_starting_at_hd assms(2) by blast
  have "subtour = [PInt (pick remaining)] \<or> last subtour = PInt (sink self)"
    using assms(3) suf by (cases suf) auto
  then show ?thesis
    using assms(1,2) suf by (subst scan_loop.simps) (auto simp: Let_def)
qed




section \<open>solve\<close>

lemma vertices_ex: "(\<exists>j\<in>set (vertices n). P j) \<longleftrightarrow> (\<exists>j<n. P (int j))"
  by (auto simp: vertices_def)

lemma vertices_all: "(\<forall>j\<in>set (vertices n). P j) \<longleftrightarrow> (\<forall>j<n. P (int j))"
  by (auto simp: vertices_def)

lemma tour_from_source:
  assumes val: "valid_instance tsp" and pf: "path_feasible (tsp_n tsp) snap"
  shows "\<exists>ws. tour_starting_at (BranchAndCutIntegerSolver_init tsp) snap (PInt 0) = Some (Inr (map vtx ws))
            \<and> ws \<noteq> [] \<and> hd ws = 0 \<and> int (last ws) = int (tsp_n tsp) - 1
            \<and> distinct ws \<and> set ws \<subseteq> {..<tsp_n tsp}"
proof -
  let ?n = "tsp_n tsp"
  from pf have se: "single_entry ?n snap"
    and out0: "\<exists>j<?n. selected snap 0 (int j)"
    and in0: "\<forall>u<?n. \<not> selected snap (int u) 0"
    and cons: "\<forall>v<?n. int v \<noteq> 0 \<and> int v \<noteq> int ?n - 1 \<and> (\<exists>u<?n. selected snap (int u) (int v))
                  \<longrightarrow> (\<exists>w<?n. selected snap (int v) (int w))"
    unfolding path_feasible_def vertices_ex vertices_all by blast+
  from out0 have n0: "0 < ?n" by auto
  from tour_starting_at_total [OF val se n0]
  obtain r where r: "tour_starting_at (BranchAndCutIntegerSolver_init tsp) snap (PInt 0) = Some r"
    and alt: "r = Inl KeyError \<and>
          (\<exists>v<?n. int v \<noteq> int ?n - 1 \<and> (\<exists>u<?n. selected snap (int u) (int v))
              \<and> (\<forall>w<?n. \<not> selected snap (int v) (int w)))
        \<or> (\<exists>ws. r = Inr (map vtx ws) \<and> ws \<noteq> [] \<and> hd ws = 0 \<and> distinct ws \<and> set ws \<subseteq> {..<?n}
              \<and> (ws = [0] \<and> (\<forall>w<?n. \<not> selected snap (int 0) (int w))
                 \<or> int (last ws) = int ?n - 1 \<or> selected snap (int (last ws)) (int 0)))"
    by auto
  from alt show ?thesis
  proof
    assume "r = Inl KeyError \<and>
          (\<exists>v<?n. int v \<noteq> int ?n - 1 \<and> (\<exists>u<?n. selected snap (int u) (int v))
              \<and> (\<forall>w<?n. \<not> selected snap (int v) (int w)))"
    then obtain v where v: "v < ?n" "int v \<noteq> int ?n - 1" "\<exists>u<?n. selected snap (int u) (int v)"
        "\<forall>w<?n. \<not> selected snap (int v) (int w)"
      by blast
    have "int v \<noteq> 0"
    proof
      assume "int v = 0"
      with v(3) have "\<exists>u<?n. selected snap (int u) 0" by simp
      with in0 show False by blast
    qed
    with cons v have False by blast
    then show ?thesis ..
  next
    assume "\<exists>ws. r = Inr (map vtx ws) \<and> ws \<noteq> [] \<and> hd ws = 0 \<and> distinct ws \<and> set ws \<subseteq> {..<?n}
              \<and> (ws = [0] \<and> (\<forall>w<?n. \<not> selected snap (int 0) (int w))
                 \<or> int (last ws) = int ?n - 1 \<or> selected snap (int (last ws)) (int 0))"
    then obtain ws where ws: "r = Inr (map vtx ws)" "ws \<noteq> []" "hd ws = 0" "distinct ws"
        "set ws \<subseteq> {..<?n}"
      and fin: "ws = [0] \<and> (\<forall>w<?n. \<not> selected snap (int 0) (int w))
                 \<or> int (last ws) = int ?n - 1 \<or> selected snap (int (last ws)) (int 0)"
      by blast
    have lastn: "last ws < ?n" using ws(2,5) last_in_set by blast
    have "int (last ws) = int ?n - 1"
      using fin out0 in0 lastn by auto
    then show ?thesis using r ws by blast
  qed
qed

lemma sum_binary:
  "\<forall>x\<in>set xs. f x = 0 \<or> f x = (1::real) \<Longrightarrow>
   sum_list (map f xs) = real (length (filter (\<lambda>x. f x > 1 / 2) xs))"
  by (induction xs) auto

lemma in_degree_count:
  assumes "binary (all_arcs n) a" and "v \<in> set (vertices n)"
  shows "in_degree n a v = real (length (filter (\<lambda>i. selected a i v) (vertices n)))"
proof -
  have "\<forall>i\<in>set (filter (\<lambda>i. i \<noteq> v) (vertices n)). a (i, v) = 0 \<or> a (i, v) = 1"
    using assms by (auto simp: binary_def set_all_arcs set_vertices)
  from sum_binary [OF this] show ?thesis
    by (simp add: in_degree_def selected_def conj_commute)
qed

lemma out_degree_count:
  assumes "binary (all_arcs n) a" and "v \<in> set (vertices n)"
  shows "out_degree n a v = real (length (filter (\<lambda>j. selected a v j) (vertices n)))"
proof -
  have "\<forall>j\<in>set (filter (\<lambda>j. j \<noteq> v) (vertices n)). a (v, j) = 0 \<or> a (v, j) = 1"
    using assms by (auto simp: binary_def set_all_arcs set_vertices)
  from sum_binary [OF this] show ?thesis
    by (simp add: out_degree_def selected_def conj_commute eq_commute)
qed


lemma filter_nonempty: "0 < length (filter P xs) \<longleftrightarrow> (\<exists>x\<in>set xs. P x)"
  by (induction xs) auto

lemma engine_feasible:
  assumes val: "valid_instance tsp" and bin: "binary (arcs tsp) a"
    and sat: "satisfies a (m_constrs (s_m (BranchAndCutIntegerSolver_init tsp)))"
  shows "path_feasible (tsp_n tsp) a"
proof -
  let ?n = "tsp_n tsp"
  let ?V = "vertices ?n"
  let ?ins = "\<lambda>v. length (filter (\<lambda>i. selected a i v) ?V)"
  let ?outs = "\<lambda>v. length (filter (\<lambda>j. selected a v j) ?V)"
  have b: "binary (all_arcs ?n) a" using bin val by (simp add: valid_instance_def)
  from sat constraints_iff_degrees [OF val, of a] satisfies_iff
  have o0: "out_degree ?n a 0 = 1" and isink: "in_degree ?n a (int ?n - 1) = 1"
    and con: "\<forall>v\<in>{1..int ?n - 2}. out_degree ?n a v = in_degree ?n a v"
    and i0: "in_degree ?n a 0 = 0"
    and le: "\<forall>v\<in>{0..int ?n - 1}. out_degree ?n a v \<le> 1"
    by blast+
  have n0: "0 < ?n"
  proof (rule ccontr)
    assume "\<not> 0 < ?n"
    then have "out_degree ?n a 0 = 0" by (simp add: out_degree_def vertices_def)
    with o0 show False by simp
  qed
  then have v0: "0 \<in> set ?V" by (simp add: set_vertices)
  have ic: "in_degree ?n a v = real (?ins v)" if "v \<in> set ?V" for v
    using in_degree_count [OF b that] .
  have oc: "out_degree ?n a v = real (?outs v)" if "v \<in> set ?V" for v
    using out_degree_count [OF b that] .
  have interior: "v \<in> {1..int ?n - 2}" if "v \<in> set ?V" "v \<noteq> 0" "v \<noteq> int ?n - 1" for v
    using that by (auto simp: set_vertices)
  have inV: "v \<in> {0..int ?n - 1}" if "v \<in> set ?V" for v
    using that by (simp add: set_vertices)
  have se: "single_entry ?n a"
    unfolding single_entry_def
  proof
    fix j assume j: "j \<in> set ?V"
    have "in_degree ?n a j \<le> 1"
    proof (cases "j = 0 \<or> j = int ?n - 1")
      case True
      then show ?thesis using i0 isink by auto
    next
      case False
      then have "in_degree ?n a j = out_degree ?n a j"
        using con interior [OF j] by simp
      then show ?thesis using le inV [OF j] by simp
    qed
    then show "?ins j \<le> 1" using ic [OF j] by simp
  qed
  have "real (?outs 0) = 1" using o0 oc [OF v0] by simp
  then have "0 < ?outs 0" by simp
  then have ex0: "\<exists>j\<in>set ?V. selected a 0 j" by (simp only: filter_nonempty)
  have "real (?ins 0) = 0" using i0 ic [OF v0] by simp
  then have "\<not> 0 < ?ins 0" by simp
  then have no0: "\<forall>u\<in>set ?V. \<not> selected a u 0" by (simp only: filter_nonempty) blast
  have cons: "\<forall>v\<in>set ?V. v \<noteq> 0 \<and> v \<noteq> int ?n - 1 \<and> (\<exists>u\<in>set ?V. selected a u v)
            \<longrightarrow> (\<exists>w\<in>set ?V. selected a v w)"
  proof (intro ballI impI)
    fix v assume v: "v \<in> set ?V"
      and h: "v \<noteq> 0 \<and> v \<noteq> int ?n - 1 \<and> (\<exists>u\<in>set ?V. selected a u v)"
    from h have "0 < ?ins v" by (simp only: filter_nonempty)
    moreover have "out_degree ?n a v = in_degree ?n a v"
      using con interior [OF v] h by simp
    ultimately have "0 < ?outs v" using ic [OF v] oc [OF v] by simp
    then show "\<exists>w\<in>set ?V. selected a v w" by (simp only: filter_nonempty)
  qed
  show ?thesis unfolding path_feasible_def using se ex0 no0 cons by blast
qed

text \<open>
  Claim C9. When the status of the engine is not optimal, \<open>solve\<close> raises \<open>RuntimeError\<close> and
  returns nothing. When it is optimal, \<open>solve\<close> does what \<open>tour_starting_at(0)\<close> does on the
  final values, and a tour that is returned comes back as a Solution with the objective
  value of the engine as its cost. For a valid instance and final values that are 0 or 1
  and satisfy the base model, \<open>solve\<close> does return: the tour is a path of distinct vertices
  from the source 0 to the sink \<open>n - 1\<close>.
\<close>

theorem solve_outcome:
  "(e_Status eng \<noteq> OPTIMAL \<longrightarrow> solve self eng = Some (Inl RuntimeError))
   \<and> (e_Status eng = OPTIMAL \<longrightarrow>
        solve self eng =
          (case tour_starting_at self (e_X eng) (PInt 0) of
             None \<Rightarrow> None
           | Some (Inl e) \<Rightarrow> Some (Inl e)
           | Some (Inr t) \<Rightarrow> Some (Inr \<lparr>sol_tour = t, sol_cost = e_ObjVal eng\<rparr>)))
   \<and> (e_Status eng = OPTIMAL \<and> valid_instance tsp \<and> binary (arcs tsp) (e_X eng)
        \<and> satisfies (e_X eng) (m_constrs (s_m (BranchAndCutIntegerSolver_init tsp))) \<longrightarrow>
        (\<exists>ws. solve (BranchAndCutIntegerSolver_init tsp) eng
                = Some (Inr \<lparr>sol_tour = map vtx ws, sol_cost = e_ObjVal eng\<rparr>)
            \<and> ws \<noteq> [] \<and> hd ws = 0 \<and> int (last ws) = int (tsp_n tsp) - 1 \<and> distinct ws))"
proof (intro conjI impI)
  assume "e_Status eng \<noteq> OPTIMAL"
  then show "solve self eng = Some (Inl RuntimeError)" by (simp add: solve_def)
next
  assume "e_Status eng = OPTIMAL"
  then show "solve self eng =
          (case tour_starting_at self (e_X eng) (PInt 0) of
             None \<Rightarrow> None
           | Some (Inl e) \<Rightarrow> Some (Inl e)
           | Some (Inr t) \<Rightarrow> Some (Inr \<lparr>sol_tour = t, sol_cost = e_ObjVal eng\<rparr>))"
    by (simp add: solve_def TSPSolution_init_def split: option.splits sum.splits)
next
  assume h: "e_Status eng = OPTIMAL \<and> valid_instance tsp \<and> binary (arcs tsp) (e_X eng)
        \<and> satisfies (e_X eng) (m_constrs (s_m (BranchAndCutIntegerSolver_init tsp)))"
  then have "path_feasible (tsp_n tsp) (e_X eng)" using engine_feasible by blast
  with h obtain ws where ws: "tour_starting_at (BranchAndCutIntegerSolver_init tsp) (e_X eng) (PInt 0) = Some (Inr (map vtx ws))"
      "ws \<noteq> []" "hd ws = 0" "int (last ws) = int (tsp_n tsp) - 1" "distinct ws"
    using tour_from_source by blast
  have "solve (BranchAndCutIntegerSolver_init tsp) eng = Some (Inr \<lparr>sol_tour = map vtx ws, sol_cost = e_ObjVal eng\<rparr>)"
    using h ws(1) by (simp add: solve_def TSPSolution_init_def)
  with ws show "\<exists>ws. solve (BranchAndCutIntegerSolver_init tsp) eng
                = Some (Inr \<lparr>sol_tour = map vtx ws, sol_cost = e_ObjVal eng\<rparr>)
            \<and> ws \<noteq> [] \<and> hd ws = 0 \<and> int (last ws) = int (tsp_n tsp) - 1 \<and> distinct ws"
    by blast
qed

lemma walk_path3:
  "tour_starting_at (BranchAndCutIntegerSolver_init tsp3) (selecting [(0, 1), (1, 2)]) (PInt 0)
     = Some (Inr [PInt 0, PInt 1, PInt 2])"
proof -
  let ?snap = "selecting [(0, 1), (1, 2)]"
  have n: "tsp_n tsp3 = 3" by (simp add: tsp3_def)
  have nv: "next_vertex (BranchAndCutIntegerSolver_init tsp3) ?snap (PInt 0) = Inr (PInt 1)"
      "next_vertex (BranchAndCutIntegerSolver_init tsp3) ?snap (PInt 1) = Inr (PInt 2)"
    by (simp_all add: next_vertex_def vertices_def upt_rec var_value_def selecting_def tsp3_def arcs_def)
  have "tour_loop (BranchAndCutIntegerSolver_init tsp3) ?snap (PInt 0) (PInt 1) [PInt 0]
      = tour_loop (BranchAndCutIntegerSolver_init tsp3) ?snap (PInt 0) (PInt 2) [PInt 0, PInt 1]"
    by (subst tour_loop.simps) (simp add: nv n)
  also have "\<dots> = Some (Inr [PInt 0, PInt 1, PInt 2])"
    by (subst tour_loop.simps) (simp add: n)
  finally show ?thesis by (simp add: tour_starting_at_def nv)
qed

theorem solve_outcome_witness:
  "e_Status \<lparr>e_Status = 3, e_ObjVal = 0, e_X = selecting []\<rparr> \<noteq> OPTIMAL
   \<and> solve (BranchAndCutIntegerSolver_init tsp3) \<lparr>e_Status = 3, e_ObjVal = 0, e_X = selecting []\<rparr>
       = Some (Inl RuntimeError)
   \<and> e_Status \<lparr>e_Status = 2, e_ObjVal = 5, e_X = selecting [(0, 1), (1, 2)]\<rparr> = OPTIMAL
   \<and> valid_instance tsp3
   \<and> binary (arcs tsp3) (selecting [(0, 1), (1, 2)])
   \<and> satisfies (selecting [(0, 1), (1, 2)]) (m_constrs (s_m (BranchAndCutIntegerSolver_init tsp3)))
   \<and> solve (BranchAndCutIntegerSolver_init tsp3) \<lparr>e_Status = 2, e_ObjVal = 5, e_X = selecting [(0, 1), (1, 2)]\<rparr>
       = Some (Inr \<lparr>sol_tour = [PInt 0, PInt 1, PInt 2], sol_cost = 5\<rparr>)"
proof -
  let ?bad = "\<lparr>e_Status = 3, e_ObjVal = 0, e_X = selecting []\<rparr>"
  let ?good = "\<lparr>e_Status = 2, e_ObjVal = 5, e_X = selecting [(0, 1), (1, 2)]\<rparr>"
  have v: "valid_instance tsp3" by (rule init_valid [OF tsp3_init])
  have b: "binary (arcs tsp3) (selecting [(0, 1), (1, 2)])"
    by (simp add: binary_def arcs_def tsp3_def selecting_def)
  have bad: "solve (BranchAndCutIntegerSolver_init tsp3) ?bad = Some (Inl RuntimeError)"
    using solve_outcome [of ?bad "BranchAndCutIntegerSolver_init tsp3" tsp3] by (simp add: OPTIMAL_def)
  have good: "solve (BranchAndCutIntegerSolver_init tsp3) ?good
       = Some (Inr \<lparr>sol_tour = [PInt 0, PInt 1, PInt 2], sol_cost = 5\<rparr>)"
    using solve_outcome [of ?good "BranchAndCutIntegerSolver_init tsp3" tsp3] by (simp add: OPTIMAL_def walk_path3)
  show ?thesis using v b bad good path3_holds by (simp add: OPTIMAL_def)
qed

section \<open>Walks that do not dangle\<close>

lemma feasible_entered_is_left:
  "path_feasible n snap \<Longrightarrow> entered_is_left n snap i"
proof -
  assume pf: "path_feasible n snap"
  show ?thesis
    unfolding entered_is_left_def
  proof (intro ballI impI)
    fix v assume v: "v \<in> set (vertices n)"
      and h: "v \<noteq> i \<and> v \<noteq> int n - 1 \<and> (\<exists>u\<in>set (vertices n). selected snap u v)"
    from h pf have "v \<noteq> 0" unfolding path_feasible_def by auto
    with v h pf show "\<exists>w\<in>set (vertices n). selected snap v w"
      unfolding path_feasible_def by auto
  qed
qed

lemma walk_without_dangling:
  assumes val: "valid_instance tsp" and i: "i < tsp_n tsp"
    and se: "single_entry (tsp_n tsp) snap" and el: "entered_is_left (tsp_n tsp) snap (int i)"
  shows "\<exists>ws. tour_starting_at (BranchAndCutIntegerSolver_init tsp) snap (vtx i) = Some (Inr (map vtx ws))
            \<and> ws \<noteq> [] \<and> hd ws = i \<and> distinct ws \<and> set ws \<subseteq> {..<tsp_n tsp}"
proof -
  let ?n = "tsp_n tsp"
  let ?S = "BranchAndCutIntegerSolver_init tsp"
  from el have left: "\<forall>v<?n. int v \<noteq> int i \<and> int v \<noteq> int ?n - 1 \<and> (\<exists>u<?n. selected snap (int u) (int v))
                  \<longrightarrow> (\<exists>w<?n. selected snap (int v) (int w))"
    unfolding entered_is_left_def vertices_ex vertices_all .
  from next_vertex_cases [OF val i, of snap]
  consider (none) "next_vertex ?S snap (vtx i) = Inr PNone"
    | (some) j where "j < ?n" "selected snap (int i) (int j)"
    by blast
  then show ?thesis
  proof cases
    case none
    then have "tour_starting_at ?S snap (vtx i) = Some (Inr (map vtx [i]))"
      by (simp add: tour_starting_at_def)
    moreover have "[i] \<noteq> []" "hd [i] = i" "distinct [i]" "set [i] \<subseteq> {..<?n}"
      using i by simp_all
    ultimately show ?thesis by blast
  next
    case some
    from tour_starting_at_total [OF val se i]
    obtain r where r: "tour_starting_at ?S snap (vtx i) = Some r"
      and alt: "r = Inl KeyError \<and>
          (\<exists>v<?n. int v \<noteq> int ?n - 1 \<and> (\<exists>u<?n. selected snap (int u) (int v))
              \<and> (\<forall>w<?n. \<not> selected snap (int v) (int w)))
        \<or> (\<exists>ws. r = Inr (map vtx ws) \<and> ws \<noteq> [] \<and> hd ws = i \<and> distinct ws \<and> set ws \<subseteq> {..<?n}
              \<and> (ws = [i] \<and> (\<forall>w<?n. \<not> selected snap (int i) (int w))
                 \<or> int (last ws) = int ?n - 1 \<or> selected snap (int (last ws)) (int i)))"
      by blast
    from alt show ?thesis
    proof
      assume "r = Inl KeyError \<and>
          (\<exists>v<?n. int v \<noteq> int ?n - 1 \<and> (\<exists>u<?n. selected snap (int u) (int v))
              \<and> (\<forall>w<?n. \<not> selected snap (int v) (int w)))"
      then obtain v where v: "v < ?n" "int v \<noteq> int ?n - 1" "\<exists>u<?n. selected snap (int u) (int v)"
          "\<forall>w<?n. \<not> selected snap (int v) (int w)"
        by blast
      have "int v \<noteq> int i"
      proof
        assume "int v = int i"
        with v(4) some show False by simp
      qed
      with left v have False by blast
      then show ?thesis ..
    next
      assume "\<exists>ws. r = Inr (map vtx ws) \<and> ws \<noteq> [] \<and> hd ws = i \<and> distinct ws \<and> set ws \<subseteq> {..<?n}
              \<and> (ws = [i] \<and> (\<forall>w<?n. \<not> selected snap (int i) (int w))
                 \<or> int (last ws) = int ?n - 1 \<or> selected snap (int (last ws)) (int i))"
      with r show ?thesis by blast
    qed
  qed
qed

text \<open>
  Claim C4, as the code has it. For a vertex \<open>i\<close> of a valid instance: when \<open>next_vertex\<close>
  returns \<open>None\<close> for \<open>i\<close> itself, \<open>tour_starting_at\<close> returns \<open>[i]\<close> without error. In a snapshot
  in which no vertex has more than one selected incoming arc and every vertex other than
  \<open>i\<close> and the sink that is entered is also left (every 0/1 assignment satisfying the base
  model is such a snapshot), \<open>next_vertex\<close> returns \<open>None\<close> at no later step: the call returns
  a list of distinct vertices that starts with \<open>i\<close>, without error.
\<close>

theorem dangling_only_at_start:
  assumes "valid_instance tsp" and "i < tsp_n tsp"
  shows "(next_vertex (BranchAndCutIntegerSolver_init tsp) snap (vtx i) = Inr PNone \<longrightarrow>
            tour_starting_at (BranchAndCutIntegerSolver_init tsp) snap (vtx i) = Some (Inr [vtx i]))
       \<and> (single_entry (tsp_n tsp) snap \<and> entered_is_left (tsp_n tsp) snap (int i) \<longrightarrow>
            (\<exists>ws. tour_starting_at (BranchAndCutIntegerSolver_init tsp) snap (vtx i) = Some (Inr (map vtx ws))
                \<and> ws \<noteq> [] \<and> hd ws = i \<and> distinct ws \<and> set ws \<subseteq> {..<tsp_n tsp}))"
  using walk_without_dangling [OF assms, of snap]
  by (simp add: tour_starting_at_def)

lemma nv_path3_sink:
  "next_vertex (BranchAndCutIntegerSolver_init tsp3) (selecting [(0, 1), (1, 2)]) (PInt 2) = Inr PNone"
  by (simp add: next_vertex_def vertices_def upt_rec var_value_def selecting_def tsp3_def arcs_def)

theorem dangling_only_at_start_witness:
  "valid_instance tsp3 \<and> (2::nat) < tsp_n tsp3 \<and> (0::nat) < tsp_n tsp3
   \<and> next_vertex (BranchAndCutIntegerSolver_init tsp3) (selecting [(0, 1), (1, 2)]) (vtx 2) = Inr PNone
   \<and> tour_starting_at (BranchAndCutIntegerSolver_init tsp3) (selecting [(0, 1), (1, 2)]) (vtx 2)
       = Some (Inr [vtx 2])
   \<and> single_entry (tsp_n tsp3) (selecting [(0, 1), (1, 2)])
   \<and> entered_is_left (tsp_n tsp3) (selecting [(0, 1), (1, 2)]) (int 0)
   \<and> tour_starting_at (BranchAndCutIntegerSolver_init tsp3) (selecting [(0, 1), (1, 2)]) (vtx 0)
       = Some (Inr [vtx 0, vtx 1, vtx 2])"
proof -
  let ?snap = "selecting [(0, 1), (1, 2)]"
  have v: "valid_instance tsp3" by (rule init_valid [OF tsp3_init])
  have i2: "(2::nat) < tsp_n tsp3" and i0: "(0::nat) < tsp_n tsp3" by (simp_all add: tsp3_def)
  have nv: "next_vertex (BranchAndCutIntegerSolver_init tsp3) ?snap (vtx 2) = Inr PNone"
    using nv_path3_sink by simp
  have se: "single_entry (tsp_n tsp3) ?snap"
    by (simp add: single_entry_def tsp3_def vertices_def upt_rec selected_def selecting_def)
  have el: "entered_is_left (tsp_n tsp3) ?snap (int 0)"
    by (simp add: entered_is_left_def tsp3_def vertices_def upt_rec selected_def selecting_def)
  have a: "tour_starting_at (BranchAndCutIntegerSolver_init tsp3) ?snap (vtx 2) = Some (Inr [vtx 2])"
    using dangling_only_at_start [OF v i2, of ?snap] nv by blast
  have b: "tour_starting_at (BranchAndCutIntegerSolver_init tsp3) ?snap (vtx 0)
       = Some (Inr [vtx 0, vtx 1, vtx 2])"
    using dangling_only_at_start [OF v i0, of ?snap] walk_path3 by simp
  from v i2 i0 nv a se el b show ?thesis by blast
qed

section \<open>One step of the scan\<close>


lemma feasible_scan_emits_nothing:
  assumes val: "valid_instance tsp" and pf: "path_feasible (tsp_n tsp) snap"
    and pick: "pick (set (vertices (tsp_n tsp))) = 0"
  shows "find_subtours (BranchAndCutIntegerSolver_init tsp) snap pick MIPSOL = Some ([], Inr ())"
proof -
  let ?S = "BranchAndCutIntegerSolver_init tsp"
  let ?R = "set (vertices (tsp_n tsp))"
  from tour_from_source [OF val pf]
  obtain ws where ws: "tour_starting_at ?S snap (PInt 0) = Some (Inr (map vtx ws))"
      "ws \<noteq> []" "int (last ws) = int (tsp_n tsp) - 1"
    by blast
  have "\<exists>j\<in>?R. selected snap 0 j" using pf by (simp add: path_feasible_def)
  then have ne: "?R \<noteq> {}" by auto
  have w: "tour_starting_at ?S snap (PInt (pick ?R)) = Some (Inr (map vtx ws))"
    using ws(1) pick by simp
  have "last (map vtx ws) = PInt (sink ?S)"
    using ws(2,3) by (simp add: last_map)
  then have "scan_loop ?S snap pick ?R [] = Some ([], Inr ())"
    using scan_stops_on_legal_walk [where pick = pick and remaining = "?R", OF ne w] by blast
  then show ?thesis by (simp add: find_subtours_def)
qed



end
